theory Spec2Isabelle
  imports Complex_Main "HOL-Library.Sublist" "HOL-Library.Char_ord" "HOL-Library.List_Lexorder"
begin

section \<open>Data model\<close>

text \<open>
  A pandas Series with the default RangeIndex is a list of cells; a cell is \<open>None\<close> when
  the value is absent (NaN / None), and the label of a cell is its position. A float64
  column holds floating-point numbers, an object column holds text.

  A float64 value that is a number is one of the two infinities or a finite binary64
  number, given by the rational it denotes; NaN is \<open>None\<close>, which is also how pandas
  stores an absent cell of a float64 column. The two zeros are not told apart.
\<close>

datatype py_error = ZeroDivisionError | TypeError | ValueError

datatype fval = NInf | Fin rat | PInf

type_synonym float64 = "fval option"

type_synonym float_series = "float64 list"
type_synonym object_series = "string option list"

datatype series = Float64 float_series | Object object_series

type_synonym dataframe = "(string \<times> series) list"

datatype column_kind = Numeric | Categorical | Identifier

text \<open>The dictionary built by \<open>calculate_interpolation\<close>.\<close>

record interpolation_record =
  missing_index :: nat
  left_value :: float64
  right_value :: float64
  left_index :: nat
  right_index :: nat
  interpolated_value :: float64
  calculation :: string

text \<open>The same dictionary with the key \<open>column\<close> added by \<open>handle_missing_values\<close>.\<close>

record column_record = interpolation_record +
  column :: string

record missing_report =
  numeric_fields_missing :: nat
  categorical_fields_missing :: nat
  columns_with_missing :: "string list"
  interpolation_details :: "column_record list"

section \<open>Series primitives\<close>

definition notna :: "'a option list \<Rightarrow> bool list" where
  "notna s = map (\<lambda>v. v \<noteq> None) s"

definition isna :: "'a option list \<Rightarrow> bool list" where
  "isna s = map (\<lambda>v. v = None) s"

text \<open>A series together with its labels, so that a slice keeps the labels of its cells.\<close>

definition labelled :: "'a list \<Rightarrow> (nat \<times> 'a) list" where
  "labelled xs = zip [0..<length xs] xs"

text \<open>\<open>mask.any()\<close> and \<open>mask.index[mask]\<close> of a labelled boolean series.\<close>

definition any_true :: "(nat \<times> bool) list \<Rightarrow> bool" where
  "any_true m = list_ex snd m"

definition true_index :: "(nat \<times> bool) list \<Rightarrow> nat list" where
  "true_index m = map fst (filter snd m)"

text \<open>\<open>series.isna().sum()\<close>.\<close>

definition missing_count :: "'a option list \<Rightarrow> nat" where
  "missing_count s = length (filter id (isna s))"

section \<open>Numbers and their text\<close>

text \<open>
  True division of two integers. A zero divisor is an explicit failure, so that its
  absence is a theorem and not a consequence of \<open>x / 0 = 0\<close> in HOL. The value is the
  quotient; the float that Python returns is this quotient rounded to binary64.
\<close>

definition py_truediv :: "int \<Rightarrow> int \<Rightarrow> py_error + rat" where
  "py_truediv a b = (if b = 0 then Inl ZeroDivisionError else Inr (of_int a / of_int b))"

text \<open>Rounding to the nearest integer, halves to the even neighbour.\<close>

definition rint :: "rat \<Rightarrow> int" where
  "rint x =
     (let f = \<lfloor>x\<rfloor>; r = x - of_int f
      in if r < 1 / 2 then f
         else if 1 / 2 < r then f + 1
         else if even f then f else f + 1)"

subsection \<open>Binary64 arithmetic\<close>

definition pow2 :: "int \<Rightarrow> rat" where
  "pow2 e = (if 0 \<le> e then of_int (2 ^ nat e) else 1 / of_int (2 ^ nat (- e)))"

text \<open>
  The number of binary digits of a positive integer \<open>a\<close> is \<open>bit_width 1 a\<close>: the count
  of the powers \<open>p\<close>, \<open>2 * p\<close>, \<open>4 * p\<close>, ... that do not exceed \<open>a\<close>.
\<close>

function bit_width :: "int \<Rightarrow> int \<Rightarrow> nat" where
  "bit_width p a = (if 0 < p \<and> p \<le> a then Suc (bit_width (2 * p) a) else 0)"
  by pat_completeness auto
termination
  by (relation "measure (\<lambda>(p, a). nat (a + 1 - p))") auto

declare bit_width.simps [simp del]

text \<open>The binary exponent of a non-zero number \<open>x\<close>: \<open>2 ^ e \<le> \<bar>x\<bar> < 2 ^ (e + 1)\<close>.\<close>

definition ilog2 :: "rat \<Rightarrow> int" where
  "ilog2 x =
     (let a = fst (quotient_of \<bar>x\<bar>); b = snd (quotient_of \<bar>x\<bar>);
          e = int (bit_width 1 a) - int (bit_width 1 b)
      in if pow2 e \<le> \<bar>x\<bar> then e else e - 1)"

text \<open>
  The binary64 number nearest to a real result, ties to the even significand: 53 bits
  of significand, the spacing of the subnormal numbers below \<open>2 ^ - 1022\<close>, and an
  infinity when the rounded number reaches \<open>2 ^ 1024\<close>.
\<close>

definition to_float64 :: "rat \<Rightarrow> fval" where
  "to_float64 x =
     (if x = 0 then Fin 0
      else (let e = ilog2 x;
                q = pow2 (max e (- 1022) - 52);
                m = rint (x / q)
            in if 1023 < e \<or> (e = 1023 \<and> \<bar>m\<bar> = 2 ^ 53)
               then (if 0 < x then PInf else NInf)
               else Fin (of_int m * q)))"

text \<open>
  The operations of IEEE 754 on these values: the exact result, rounded; an infinity
  absorbs finite operands; the undefined forms and every operation on NaN give NaN.
\<close>

fun f_neg :: "float64 \<Rightarrow> float64" where
  "f_neg None = None"
| "f_neg (Some NInf) = Some PInf"
| "f_neg (Some PInf) = Some NInf"
| "f_neg (Some (Fin a)) = Some (Fin (- a))"

fun f_add :: "float64 \<Rightarrow> float64 \<Rightarrow> float64" where
  "f_add (Some (Fin a)) (Some (Fin b)) = Some (to_float64 (a + b))"
| "f_add (Some PInf) (Some NInf) = None"
| "f_add (Some NInf) (Some PInf) = None"
| "f_add (Some PInf) (Some y) = Some PInf"
| "f_add (Some NInf) (Some y) = Some NInf"
| "f_add (Some x) (Some y) = Some y"
| "f_add x y = None"

definition f_sub :: "float64 \<Rightarrow> float64 \<Rightarrow> float64" where
  "f_sub x y = f_add x (f_neg y)"

fun sign_of :: "fval \<Rightarrow> int" where
  "sign_of NInf = - 1"
| "sign_of PInf = 1"
| "sign_of (Fin a) = (if a < 0 then - 1 else if a = 0 then 0 else 1)"

definition signed_inf :: "int \<Rightarrow> float64" where
  "signed_inf s = (if s = 0 then None else if 0 < s then Some PInf else Some NInf)"

fun f_mul :: "float64 \<Rightarrow> float64 \<Rightarrow> float64" where
  "f_mul (Some (Fin a)) (Some (Fin b)) = Some (to_float64 (a * b))"
| "f_mul (Some x) (Some y) = signed_inf (sign_of x * sign_of y)"
| "f_mul x y = None"

text \<open>A zero divisor is taken as the positive zero.\<close>

fun f_div :: "float64 \<Rightarrow> float64 \<Rightarrow> float64" where
  "f_div (Some (Fin a)) (Some (Fin b)) =
     (if b = 0 then signed_inf (sign_of (Fin a)) else Some (to_float64 (a / b)))"
| "f_div (Some (Fin a)) (Some y) = Some (Fin 0)"
| "f_div (Some x) (Some (Fin b)) = signed_inf (sign_of x * (if b < 0 then - 1 else 1))"
| "f_div x y = None"

fun f_rint :: "float64 \<Rightarrow> float64" where
  "f_rint (Some (Fin a)) = Some (Fin (of_int (rint a)))"
| "f_rint x = x"

text \<open>The float of a position of a series.\<close>

definition f_nat :: "nat \<Rightarrow> float64" where
  "f_nat n = Some (to_float64 (of_nat n))"

text \<open>
  \<open>round(x, 2)\<close> of a \<open>numpy.float64\<close>: the value is multiplied by 100, rounded to an
  integer, and divided by 100, each step in binary64.
\<close>

definition round2 :: "float64 \<Rightarrow> float64" where
  "round2 x = f_div (f_rint (f_mul x (Some (Fin 100)))) (Some (Fin 100))"

text \<open>The order of the numbers, for sorting a column of floats.\<close>

instantiation fval :: linorder
begin

fun less_eq_fval :: "fval \<Rightarrow> fval \<Rightarrow> bool" where
  "less_eq_fval NInf y = True"
| "less_eq_fval x PInf = True"
| "less_eq_fval (Fin a) (Fin b) = (a \<le> b)"
| "less_eq_fval x y = False"

definition less_fval :: "fval \<Rightarrow> fval \<Rightarrow> bool" where
  "less_fval x y = (x \<le> y \<and> \<not> y \<le> (x::fval))"

instance
proof
  fix x y z :: fval
  show "(x < y) = (x \<le> y \<and> \<not> y \<le> x)" by (simp add: less_fval_def)
  show "x \<le> x" by (cases x) simp_all
  show "x \<le> y \<Longrightarrow> y \<le> z \<Longrightarrow> x \<le> z" by (cases x; cases y; cases z) simp_all
  show "x \<le> y \<Longrightarrow> y \<le> x \<Longrightarrow> x = y" by (cases x; cases y) simp_all
  show "x \<le> y \<or> y \<le> x" by (cases x; cases y) auto
qed

end

definition digit_char :: "nat \<Rightarrow> char" where
  "digit_char d = char_of (48 + d)"

text \<open>The decimal text of a non-negative integer, as \<open>str\<close> gives it.\<close>

function show_nat :: "nat \<Rightarrow> string" where
  "show_nat n = (if n < 10 then [digit_char n] else show_nat (n div 10) @ [digit_char (n mod 10)])"
  by pat_completeness auto
termination
  by (relation "measure id") auto

declare show_nat.simps [simp del]

text \<open>
  The text of a float is produced by the interpreter; the functions below take that
  conversion as the parameter \<open>fr\<close>.
\<close>

section \<open>The interpolation engine\<close>

text \<open>The two neighbour labels that \<open>calculate_interpolation\<close> reads off its masks.\<close>

definition before_mask :: "'a option list \<Rightarrow> nat \<Rightarrow> (nat \<times> bool) list" where
  "before_mask series index = take index (labelled (notna series))"

definition after_mask :: "'a option list \<Rightarrow> nat \<Rightarrow> (nat \<times> bool) list" where
  "after_mask series index = drop index (labelled (notna series))"

definition left_idx :: "'a option list \<Rightarrow> nat \<Rightarrow> nat" where
  "left_idx series index = last (true_index (before_mask series index))"

definition right_idx :: "'a option list \<Rightarrow> nat \<Rightarrow> nat" where
  "right_idx series index = hd (true_index (after_mask series index))"

text \<open>The multiplication sign of the formula text, U+00D7 in UTF-8.\<close>

definition times_sign :: string where
  "times_sign = [char_of (195::nat), char_of (151::nat)]"

definition calculation_text ::
  "(float64 \<Rightarrow> string) \<Rightarrow> float64 \<Rightarrow> float64 \<Rightarrow> nat \<Rightarrow> nat \<Rightarrow> nat \<Rightarrow> string" where
  "calculation_text fr left_val right_val index l r =
     ''Value_'' @ fr left_val @ '' + ('' @ fr right_val @ '' - '' @ fr left_val @ '') ''
       @ times_sign @ '' ('' @ show_nat index @ '' - '' @ show_nat l @ '')/(''
       @ show_nat r @ '' - '' @ show_nat l @ '')''"

text \<open>
  The value is computed in binary64, in the order of the source: the quotient of the two
  distances, the difference of the neighbours, their product, the sum with the left value.
\<close>

definition calculate_interpolation ::
  "(float64 \<Rightarrow> string) \<Rightarrow> float_series \<Rightarrow> nat \<Rightarrow> py_error + interpolation_record option" where
  "calculate_interpolation fr series index =
     (if any_true (before_mask series index) \<and> any_true (after_mask series index) then
        (let l = left_idx series index;
             r = right_idx series index;
             left_val = series ! l;
             right_val = series ! r
         in case py_truediv (int index - int l) (int r - int l) of
              Inl e \<Rightarrow> Inl e
            | Inr q \<Rightarrow>
                (let position_ratio = Some (to_float64 q);
                     value = f_add left_val (f_mul (f_sub right_val left_val) position_ratio)
                 in Inr (Some \<lparr>missing_index = index,
                               left_value = left_val,
                               right_value = right_val,
                               left_index = l,
                               right_index = r,
                               interpolated_value = round2 value,
                               calculation = calculation_text fr left_val right_val index l r\<rparr>)))
      else Inr None)"

text \<open>The loop of \<open>interpolate_numeric\<close> over the labels of the absent cells.\<close>

fun collect_details ::
  "(float64 \<Rightarrow> string) \<Rightarrow> float_series \<Rightarrow> nat list \<Rightarrow> interpolation_record list
     \<Rightarrow> py_error + interpolation_record list" where
  "collect_details fr series [] acc = Inr acc"
| "collect_details fr series (idx # rest) acc =
     (case calculate_interpolation fr series idx of
        Inl e \<Rightarrow> Inl e
      | Inr None \<Rightarrow> collect_details fr series rest acc
      | Inr (Some details) \<Rightarrow> collect_details fr series rest (acc @ [details]))"

definition missing_indices :: "'a option list \<Rightarrow> nat list" where
  "missing_indices series = true_index (labelled (isna series))"

text \<open>
  \<open>numpy.interp\<close> on one segment between the known points \<open>(x0, y0)\<close> and \<open>(x1, y1)\<close>:
  the slope times the distance from the left end, plus the left value, in binary64; if
  that is NaN the same from the right end; if that is NaN too and the two values are
  equal, that value.
\<close>

definition np_segment :: "float64 \<Rightarrow> float64 \<Rightarrow> float64 \<Rightarrow> float64 \<Rightarrow> float64 \<Rightarrow> float64" where
  "np_segment x0 y0 x1 y1 x =
     (let slope = f_div (f_sub y1 y0) (f_sub x1 x0);
          res = f_add (f_mul slope (f_sub x x0)) y0
      in if res \<noteq> None then res
         else (let res2 = f_add (f_mul slope (f_sub x x1)) y1
               in if res2 = None \<and> y0 = y1 then y0 else res2))"

text \<open>
  \<open>numpy.interp\<close> at the position \<open>x\<close> over the known points \<open>(position, value)\<close>,
  ascending in the position: the first value left of the first point, the last value
  right of the last point, the value of a point at its position, and \<open>np_segment\<close>
  between two points.
\<close>

fun np_interp :: "nat \<Rightarrow> (nat \<times> float64) list \<Rightarrow> float64" where
  "np_interp x [] = None"
| "np_interp x [(x0, y0)] = y0"
| "np_interp x ((x0, y0) # (x1, y1) # ps) =
     (if x \<le> x0 then y0
      else if x < x1 then np_segment (f_nat x0) y0 (f_nat x1) y1 (f_nat x)
      else np_interp x ((x1, y1) # ps))"

text \<open>
  \<open>Series.interpolate(method='linear')\<close> with its defaults (direction forward, no limit):
  the cells are taken as equally spaced; a series without any value is returned as it
  is; absent cells are replaced by \<open>numpy.interp\<close> over the positions of the present
  cells, except those before the first present cell, which stay absent.
\<close>

definition valid_positions :: "'a option list \<Rightarrow> nat list" where
  "valid_positions ys = filter (\<lambda>i. ys ! i \<noteq> None) [0..<length ys]"

definition pd_interpolate_linear :: "float_series \<Rightarrow> float_series" where
  "pd_interpolate_linear ys =
     (let valid = valid_positions ys
      in if valid = [] then ys
         else map (\<lambda>i. case ys ! i of
                          Some v \<Rightarrow> Some v
                        | None \<Rightarrow>
                            if i < hd valid then None
                            else np_interp i (map (\<lambda>j. (j, ys ! j)) valid))
                  [0..<length ys])"

definition interpolate_numeric ::
  "(float64 \<Rightarrow> string) \<Rightarrow> float_series \<Rightarrow> py_error + float_series \<times> interpolation_record list" where
  "interpolate_numeric fr series =
     (case collect_details fr series (missing_indices series) [] of
        Inl e \<Rightarrow> Inl e
      | Inr details \<Rightarrow> Inr (pd_interpolate_linear series, details))"

section \<open>The categorical filler\<close>

definition dropna :: "'a option list \<Rightarrow> 'a list" where
  "dropna s = map the (filter (\<lambda>c. c \<noteq> None) s)"

definition fillna :: "'a \<Rightarrow> 'a option list \<Rightarrow> 'a option list" where
  "fillna v s = map (\<lambda>c. case c of None \<Rightarrow> Some v | Some x \<Rightarrow> Some x) s"

text \<open>
  \<open>Series.mode()\<close>: absent cells are dropped, the values that occur most often are
  collected, and the result is returned sorted in ascending order (numbers by value, text
  by code point). A series without any value has the empty mode.
\<close>

definition top_count :: "'a list \<Rightarrow> nat" where
  "top_count vals = fold max (map (count_list vals) vals) 0"

definition pd_mode :: "'a::linorder option list \<Rightarrow> 'a list" where
  "pd_mode s =
     (let vals = dropna s
      in sort (filter (\<lambda>k. count_list vals k = top_count vals) (remdups vals)))"

text \<open>
  On a float64 column whose mode is empty every cell is absent, and filling it with the
  label turns it into a column of text.
\<close>

fun fill_categorical :: "series \<Rightarrow> series" where
  "fill_categorical (Object s) =
     (let mode = pd_mode s
      in if length mode > 0 then Object (fillna (mode ! 0) s)
         else Object (fillna ''Unknown'' s))"
| "fill_categorical (Float64 s) =
     (let mode = pd_mode s
      in if length mode > 0 then Float64 (fillna (mode ! 0) s)
         else Object (map (\<lambda>c. Some ''Unknown'') s))"

text \<open>
  The wording of the specification, for comparison: the most frequent value, the first
  one met in the column among those that tie.
\<close>

definition spec_first_encountered_mode :: "'a option list \<Rightarrow> 'a option" where
  "spec_first_encountered_mode s =
     (let vals = dropna s in find (\<lambda>v. count_list vals v = top_count vals) vals)"

section \<open>The coordinator\<close>

text \<open>\<open>detect_data_types\<close> builds a dictionary whose entry for a column depends on its name \<open>cname\<close> only.\<close>

definition detect_data_types :: "string \<Rightarrow> column_kind" where
  "detect_data_types cname =
     (if cname = ''age'' then Numeric
      else if cname = ''name'' then Categorical
      else Identifier)"

fun series_missing_count :: "series \<Rightarrow> nat" where
  "series_missing_count (Float64 s) = missing_count s"
| "series_missing_count (Object s) = missing_count s"


definition with_column :: "string \<Rightarrow> interpolation_record \<Rightarrow> column_record" where
  "with_column c d =
     \<lparr>missing_index = missing_index d, left_value = left_value d,
      right_value = right_value d, left_index = left_index d,
      right_index = right_index d, interpolated_value = interpolated_value d,
      calculation = calculation d, column = c\<rparr>"

text \<open>
  The body of the loop of \<open>handle_missing_values\<close> for one column, named \<open>cname\<close>.
  \<open>names\<close> are the column
  names of the whole frame: selecting a name that occurs twice yields a frame, whose
  count of absent cells is a series, and testing that series raises \<open>ValueError\<close>. A
  column of text under a numeric name is outside the interpolation engine (arithmetic on
  text and interpolation of an object column raise \<open>TypeError\<close>).
\<close>

definition repair_column ::
  "(float64 \<Rightarrow> string) \<Rightarrow> string list \<Rightarrow> string \<Rightarrow> series \<Rightarrow> missing_report
     \<Rightarrow> py_error + series \<times> missing_report" where
  "repair_column fr names cname col rep =
     (if 1 < count_list names cname then Inl ValueError
      else
        (let mc = series_missing_count col
         in if mc > 0 then
              (let rep1 = rep\<lparr>columns_with_missing := columns_with_missing rep @ [cname]\<rparr>
               in if detect_data_types cname = Numeric then
                    (case col of
                       Object s \<Rightarrow> Inl TypeError
                     | Float64 s \<Rightarrow>
                         (case interpolate_numeric fr s of
                            Inl e \<Rightarrow> Inl e
                          | Inr (s', details) \<Rightarrow>
                              Inr (Float64 s',
                                   rep1\<lparr>numeric_fields_missing := numeric_fields_missing rep1 + mc,
                                        interpolation_details :=
                                          interpolation_details rep1 @ map (with_column cname) details\<rparr>)))
                  else if detect_data_types cname = Categorical then
                    Inr (fill_categorical col,
                         rep1\<lparr>categorical_fields_missing := categorical_fields_missing rep1 + mc\<rparr>)
                  else Inr (col, rep1))
            else Inr (col, rep)))"

fun repair_columns ::
  "(float64 \<Rightarrow> string) \<Rightarrow> string list \<Rightarrow> dataframe \<Rightarrow> missing_report
     \<Rightarrow> py_error + dataframe \<times> missing_report" where
  "repair_columns fr names [] rep = Inr ([], rep)"
| "repair_columns fr names ((cname, col) # rest) rep =
     (case repair_column fr names cname col rep of
        Inl e \<Rightarrow> Inl e
      | Inr (col', rep') \<Rightarrow>
          (case repair_columns fr names rest rep' of
             Inl e \<Rightarrow> Inl e
           | Inr (rest', rep'') \<Rightarrow> Inr ((cname, col') # rest', rep'')))"

definition empty_report :: missing_report where
  "empty_report =
     \<lparr>numeric_fields_missing = 0, categorical_fields_missing = 0,
      columns_with_missing = [], interpolation_details = []\<rparr>"

definition handle_missing_values ::
  "(float64 \<Rightarrow> string) \<Rightarrow> dataframe \<Rightarrow> py_error + dataframe \<times> missing_report" where
  "handle_missing_values fr df = repair_columns fr (map fst df) df empty_report"

text \<open>Well-typed frames: distinct column names, and numbers under every numeric name.\<close>

fun is_float64 :: "series \<Rightarrow> bool" where
  "is_float64 (Float64 s) = True"
| "is_float64 (Object s) = False"

definition well_typed :: "dataframe \<Rightarrow> bool" where
  "well_typed df =
     (distinct (map fst df) \<and>
      list_all (\<lambda>(cname, col). detect_data_types cname = Numeric \<longrightarrow> is_float64 col) df)"

section \<open>The report\<close>














section \<open>Auxiliary notions for the proofs\<close>

text \<open>
  The four updates that the loop body makes to the report, as one function: two counts
  are increased, a list of names and a list of records are appended.
\<close>

definition extend_report ::
  "missing_report \<Rightarrow> nat \<Rightarrow> nat \<Rightarrow> string list \<Rightarrow> column_record list \<Rightarrow> missing_report" where
  "extend_report rep dn dc dw dd =
     \<lparr>numeric_fields_missing = numeric_fields_missing rep + dn,
      categorical_fields_missing = categorical_fields_missing rep + dc,
      columns_with_missing = columns_with_missing rep @ dw,
      interpolation_details = interpolation_details rep @ dd\<rparr>"

text \<open>The gaps of a frame before repair, by kind of column, and the names of the columns with gaps.\<close>

abbreviation numeric_gaps :: "dataframe \<Rightarrow> nat" where
  "numeric_gaps df \<equiv>
     sum_list (map (\<lambda>(n, c). if detect_data_types n = Numeric then series_missing_count c else 0) df)"

abbreviation categorical_gaps :: "dataframe \<Rightarrow> nat" where
  "categorical_gaps df \<equiv>
     sum_list (map (\<lambda>(n, c). if detect_data_types n = Categorical then series_missing_count c else 0) df)"

abbreviation gap_columns :: "dataframe \<Rightarrow> string list" where
  "gap_columns df \<equiv> map fst (filter (\<lambda>(n, c). 0 < series_missing_count c) df)"

section \<open>Masks and nearest neighbours\<close>

lemma labelled_notna: "labelled (notna s) = map (\<lambda>j. (j, s ! j \<noteq> None)) [0..<length s]"
  by (rule nth_equalityI) (simp_all add: labelled_def notna_def)

lemma labelled_isna: "labelled (isna s) = map (\<lambda>j. (j, s ! j = None)) [0..<length s]"
  by (rule nth_equalityI) (simp_all add: labelled_def isna_def)

lemma true_index_map: "true_index (map (\<lambda>j. (j, P j)) js) = filter P js"
  by (induction js) (simp_all add: true_index_def)

lemma any_true_map: "any_true (map (\<lambda>j. (j, P j)) js) = (\<exists>j\<in>set js. P j)"
  by (simp add: any_true_def list_ex_iff)

lemma take_upt0: "take i [0..<n] = [0..<min i n]"
  by (cases "i \<le> n") (simp_all add: min_def)

lemma before_mask_eq:
  "before_mask s i = map (\<lambda>j. (j, s ! j \<noteq> None)) [0..<min i (length s)]"
  by (simp add: before_mask_def labelled_notna take_map take_upt0)

lemma after_mask_eq:
  "after_mask s i = map (\<lambda>j. (j, s ! j \<noteq> None)) [i..<length s]"
  by (simp add: after_mask_def labelled_notna drop_map)

lemma left_idx_eq: "left_idx s i = last (filter (\<lambda>j. s ! j \<noteq> None) [0..<min i (length s)])"
  by (simp add: left_idx_def before_mask_eq true_index_map)

lemma right_idx_eq: "right_idx s i = hd (filter (\<lambda>j. s ! j \<noteq> None) [i..<length s])"
  by (simp add: right_idx_def after_mask_eq true_index_map)

lemma any_before: "any_true (before_mask s i) \<longleftrightarrow> (\<exists>j. j < i \<and> j < length s \<and> s ! j \<noteq> None)"
  by (auto simp add: before_mask_eq any_true_map)

lemma any_after: "any_true (after_mask s i) \<longleftrightarrow> (\<exists>j. i \<le> j \<and> j < length s \<and> s ! j \<noteq> None)"
  by (auto simp add: after_mask_eq any_true_map)

lemma missing_indices_eq: "missing_indices s = filter (\<lambda>j. s ! j = None) [0..<length s]"
  by (simp add: missing_indices_def labelled_isna true_index_map)




lemma last_filter_props:
  assumes "filter P [a..<m] \<noteq> []"
  shows "a \<le> last (filter P [a..<m]) \<and> last (filter P [a..<m]) < m \<and> P (last (filter P [a..<m]))
         \<and> (\<forall>j. last (filter P [a..<m]) < j \<and> j < m \<longrightarrow> \<not> P j)"
  using assms
proof (induction m)
  case 0
  then show ?case by simp
next
  case (Suc m)
  show ?case
  proof (cases "a \<le> m")
    case False
    then show ?thesis using Suc.prems by simp
  next
    case True
    show ?thesis
    proof (cases "P m")
      case True
      then show ?thesis using \<open>a \<le> m\<close> by auto
    next
      case False
      then have ne: "filter P [a..<m] \<noteq> []" using Suc.prems \<open>a \<le> m\<close> by simp
      have eq: "filter P [a..<Suc m] = filter P [a..<m]" using False \<open>a \<le> m\<close> by simp
      from Suc.IH [OF ne] show ?thesis unfolding eq using False
        by (metis less_Suc_eq)
    qed
  qed
qed

lemma hd_filter_props:
  assumes "filter P [i..<n] \<noteq> []"
  shows "i \<le> hd (filter P [i..<n]) \<and> hd (filter P [i..<n]) < n \<and> P (hd (filter P [i..<n]))
         \<and> (\<forall>j. i \<le> j \<and> j < hd (filter P [i..<n]) \<longrightarrow> \<not> P j)"
  using assms
proof (induction "n - i" arbitrary: i)
  case 0
  then show ?case by simp
next
  case (Suc k)
  then have lt: "i < n" by simp
  have up: "[i..<n] = i # [Suc i..<n]" using lt by (rule upt_conv_Cons)
  show ?case
  proof (cases "P i")
    case True
    then show ?thesis using lt by (auto simp add: up)
  next
    case False
    then have ne: "filter P [Suc i..<n] \<noteq> []" using Suc.prems by (simp add: up)
    have eq: "filter P [i..<n] = filter P [Suc i..<n]" using False by (simp add: up)
    have k: "k = n - Suc i" using Suc.hyps(2) by simp
    from Suc.hyps(1) [OF k ne] show ?thesis unfolding eq using False
      by (metis Suc_leD Suc_leI le_neq_implies_less)
  qed
qed

lemma any_before_filter:
  "any_true (before_mask s i) \<longleftrightarrow> filter (\<lambda>j. s ! j \<noteq> None) [0..<min i (length s)] \<noteq> []"
  by (auto simp add: before_mask_eq any_true_map filter_empty_conv)

lemma any_after_filter:
  "any_true (after_mask s i) \<longleftrightarrow> filter (\<lambda>j. s ! j \<noteq> None) [i..<length s] \<noteq> []"
  by (auto simp add: after_mask_eq any_true_map filter_empty_conv)

lemma left_idx_props:
  assumes "any_true (before_mask s i)"
  shows "left_idx s i < i \<and> left_idx s i < length s \<and> s ! left_idx s i \<noteq> None
         \<and> (\<forall>j. left_idx s i < j \<and> j < i \<and> j < length s \<longrightarrow> s ! j = None)"
proof -
  define P where "P = (\<lambda>j. s ! j \<noteq> None)"
  define m where "m = min i (length s)"
  have ne: "filter P [0..<m] \<noteq> []"
    using assms by (simp add: any_before_filter P_def m_def)
  have L: "left_idx s i = last (filter P [0..<m])"
    by (simp add: left_idx_eq P_def m_def)
  note p = last_filter_props [OF ne, folded L]
  have 1: "left_idx s i < m" using p by blast
  have 2: "P (left_idx s i)" using p by blast
  have 3: "\<not> P j" if "left_idx s i < j" "j < m" for j using p that by blast
  have "s ! j = None" if "left_idx s i < j" "j < i" "j < length s" for j
    using 3 [of j] that by (simp add: P_def m_def)
  then show ?thesis using 1 2 by (simp add: P_def m_def)
qed

lemma right_idx_props:
  assumes "any_true (after_mask s i)"
  shows "i \<le> right_idx s i \<and> right_idx s i < length s \<and> s ! right_idx s i \<noteq> None
         \<and> (\<forall>j. i \<le> j \<and> j < right_idx s i \<longrightarrow> s ! j = None)"
proof -
  define P where "P = (\<lambda>j. s ! j \<noteq> None)"
  have ne: "filter P [i..<length s] \<noteq> []"
    using assms by (simp add: any_after_filter P_def)
  have R: "right_idx s i = hd (filter P [i..<length s])"
    by (simp add: right_idx_eq P_def)
  note p = hd_filter_props [OF ne, folded R]
  have 1: "i \<le> right_idx s i" "right_idx s i < length s" using p by blast+
  have 2: "P (right_idx s i)" using p by blast
  have 3: "\<not> P j" if "i \<le> j" "j < right_idx s i" for j using p that by blast
  have "s ! j = None" if "i \<le> j" "j < right_idx s i" for j
    using 3 [of j] that by (simp add: P_def)
  then show ?thesis using 1 2 by (simp add: P_def)
qed



section \<open>Binary64 numbers at the positions of a series\<close>











section \<open>The record of a gap\<close>

lemma calculate_interpolation_some:
  assumes "any_true (before_mask s i)" "any_true (after_mask s i)"
  shows "calculate_interpolation fr s i =
           Inr (Some \<lparr>missing_index = i,
                       left_value = s ! left_idx s i,
                       right_value = s ! right_idx s i,
                       left_index = left_idx s i,
                       right_index = right_idx s i,
                       interpolated_value =
                         round2 (f_add (s ! left_idx s i)
                                   (f_mul (f_sub (s ! right_idx s i) (s ! left_idx s i))
                                      (Some (to_float64
                                               (of_int (int i - int (left_idx s i))
                                                / of_int (int (right_idx s i) - int (left_idx s i))))))),
                       calculation =
                         calculation_text fr (s ! left_idx s i) (s ! right_idx s i)
                           i (left_idx s i) (right_idx s i)\<rparr>)"
proof -
  have "left_idx s i < i" using left_idx_props [OF assms(1)] by simp
  moreover have "i \<le> right_idx s i" using right_idx_props [OF assms(2)] by simp
  ultimately have "int (right_idx s i) - int (left_idx s i) \<noteq> 0" by simp
  then show ?thesis using assms
    by (simp add: calculate_interpolation_def py_truediv_def Let_def)
qed

lemma calculate_interpolation_none:
  assumes "\<not> (any_true (before_mask s i) \<and> any_true (after_mask s i))"
  shows "calculate_interpolation fr s i = Inr None"
  unfolding calculate_interpolation_def using assms by (rule if_not_P)

lemma collect_details_char:
  "\<exists>ds. collect_details fr s idxs acc = Inr (acc @ ds)
        \<and> map missing_index ds
            = filter (\<lambda>i. any_true (before_mask s i) \<and> any_true (after_mask s i)) idxs
        \<and> (\<forall>d\<in>set ds. calculate_interpolation fr s (missing_index d) = Inr (Some d))"
proof (induction idxs arbitrary: acc)
  case Nil
  then show ?case by simp
next
  case (Cons i idxs)
  show ?case
  proof (cases "any_true (before_mask s i) \<and> any_true (after_mask s i)")
    case False
    then have c: "calculate_interpolation fr s i = Inr None"
      by (rule calculate_interpolation_none)
    from Cons.IH [of acc] obtain ds where
      "collect_details fr s idxs acc = Inr (acc @ ds)"
      "map missing_index ds
         = filter (\<lambda>i. any_true (before_mask s i) \<and> any_true (after_mask s i)) idxs"
      "\<forall>d\<in>set ds. calculate_interpolation fr s (missing_index d) = Inr (Some d)"
      by blast
    then show ?thesis using False c by simp
  next
    case True
    then obtain d where c: "calculate_interpolation fr s i = Inr (Some d)"
      and mi: "missing_index d = i"
      using calculate_interpolation_some [of s i fr] by simp
    from Cons.IH [of "acc @ [d]"] obtain ds where
      ds: "collect_details fr s idxs (acc @ [d]) = Inr ((acc @ [d]) @ ds)"
      "map missing_index ds
         = filter (\<lambda>i. any_true (before_mask s i) \<and> any_true (after_mask s i)) idxs"
      "\<forall>d\<in>set ds. calculate_interpolation fr s (missing_index d) = Inr (Some d)"
      by blast
    have 1: "collect_details fr s (i # idxs) acc = Inr (acc @ (d # ds))"
      using c ds(1) by simp
    have 2: "map missing_index (d # ds)
         = filter (\<lambda>i. any_true (before_mask s i) \<and> any_true (after_mask s i)) (i # idxs)"
      using True mi ds(2) by simp
    have 3: "\<forall>e\<in>set (d # ds). calculate_interpolation fr s (missing_index e) = Inr (Some e)"
      using c mi ds(3) by simp
    from 1 2 3 show ?thesis by blast
  qed
qed

lemma np_interp_right:
  "ps \<noteq> [] \<Longrightarrow> \<forall>p\<in>set ps. fst p < x \<Longrightarrow> np_interp x ps = snd (last ps)"
  by (induction x ps rule: np_interp.induct) simp_all


section \<open>Claims about \<open>calculate_interpolation\<close>\<close>

text \<open>
  Claim C6. \<open>calculate_interpolation\<close> never fails; and whenever it finds a value before and
  a value after a gap at \<open>index\<close>, the left label is strictly below \<open>index\<close> and the right
  label strictly above it, so the divisor \<open>right_idx - left_idx\<close> is not zero, the division
  yields the position ratio, and a record is returned.
\<close>

theorem calculate_interpolation_divisor_nonzero:
  "(\<forall>e. calculate_interpolation fr series index \<noteq> Inl e)
   \<and> (any_true (before_mask series index) \<and> any_true (after_mask series index)
        \<and> series ! index = None
      \<longrightarrow> left_idx series index < index \<and> index < right_idx series index
          \<and> int (right_idx series index) - int (left_idx series index) \<noteq> 0
          \<and> py_truediv (int index - int (left_idx series index))
               (int (right_idx series index) - int (left_idx series index))
              = Inr (of_int (int index - int (left_idx series index))
                     / of_int (int (right_idx series index) - int (left_idx series index)))
          \<and> (\<exists>d. calculate_interpolation fr series index = Inr (Some d)))"
proof -
  have nofail: "calculate_interpolation fr series index \<noteq> Inl e" for e
  proof (cases "any_true (before_mask series index) \<and> any_true (after_mask series index)")
    case True
    then show ?thesis using calculate_interpolation_some [of series index fr] by simp
  next
    case False
    then show ?thesis using calculate_interpolation_none [of series index fr] by simp
  qed
  have gap: "left_idx series index < index \<and> index < right_idx series index
          \<and> int (right_idx series index) - int (left_idx series index) \<noteq> 0
          \<and> py_truediv (int index - int (left_idx series index))
               (int (right_idx series index) - int (left_idx series index))
              = Inr (of_int (int index - int (left_idx series index))
                     / of_int (int (right_idx series index) - int (left_idx series index)))
          \<and> (\<exists>d. calculate_interpolation fr series index = Inr (Some d))"
    if b: "any_true (before_mask series index)" and a: "any_true (after_mask series index)"
      and g: "series ! index = None"
  proof -
    have l: "left_idx series index < index" using left_idx_props [OF b] by simp
    have "index \<le> right_idx series index" "series ! right_idx series index \<noteq> None"
      using right_idx_props [OF a] by simp_all
    then have r: "index < right_idx series index" using g by (metis le_neq_implies_less)
    have nz: "int (right_idx series index) - int (left_idx series index) \<noteq> 0"
      using l r by simp
    have "\<exists>d. calculate_interpolation fr series index = Inr (Some d)"
      using calculate_interpolation_some [OF b a, of fr] by blast
    then show ?thesis using l r nz by (simp add: py_truediv_def)
  qed
  show ?thesis using nofail gap by blast
qed

theorem calculate_interpolation_divisor_nonzero_witness:
  "any_true (before_mask [Some (Fin 10), None, None, Some (Fin 40)] 1)
   \<and> any_true (after_mask [Some (Fin 10), None, None, Some (Fin 40)] 1)
   \<and> [Some (Fin 10), None, None, Some (Fin 40)] ! 1 = None
   \<and> left_idx [Some (Fin 10), None, None, Some (Fin 40)] 1 < 1
   \<and> 1 < right_idx [Some (Fin 10), None, None, Some (Fin 40)] 1
   \<and> (\<forall>e. calculate_interpolation (\<lambda>v. []) [Some (Fin 10), None, None, Some (Fin 40)] 1 \<noteq> Inl e)"
proof -
  have b: "any_true (before_mask [Some (Fin 10), None, None, Some (Fin 40)] 1)" by code_simp
  have a: "any_true (after_mask [Some (Fin 10), None, None, Some (Fin 40)] 1)" by code_simp
  have g: "[Some (Fin 10), None, None, Some (Fin 40)] ! 1 = None" by simp
  from calculate_interpolation_divisor_nonzero
         [of "(\<lambda>v. [])" "[Some (Fin 10), None, None, Some (Fin 40)]" 1] a b g
  show ?thesis by blast
qed



section \<open>The repaired column\<close>

lemma valid_positions_split:
  assumes "i \<le> length s"
  shows "valid_positions s
         = filter (\<lambda>j. s ! j \<noteq> None) [0..<i] @ filter (\<lambda>j. s ! j \<noteq> None) [i..<length s]"
proof -
  have "[0..<length s] = [0..<i] @ [i..<length s]"
    using assms by (metis le_add_diff_inverse upt_add_eq_append zero_le)
  then show ?thesis by (simp add: valid_positions_def)
qed


lemma pd_interpolate_present:
  assumes "i < length s" "s ! i = Some v"
  shows "pd_interpolate_linear s ! i = Some v"
  using assms by (simp add: pd_interpolate_linear_def Let_def)

lemma pd_interpolate_leading:
  assumes "i < length s" "s ! i = None" "\<not> any_true (before_mask s i)"
  shows "pd_interpolate_linear s ! i = None"
proof (cases "valid_positions s = []")
  case True
  then show ?thesis using assms(2) by (simp add: pd_interpolate_linear_def)
next
  case False
  define P where "P = (\<lambda>j. s ! j \<noteq> None)"
  have ne: "filter P [0..<length s] \<noteq> []" using False by (simp add: valid_positions_def P_def)
  have hdP: "P (hd (filter P [0..<length s]))" using hd_filter_props [OF ne] by blast
  have "\<not> P j" if "j < i" for j
    using assms(1,3) that unfolding any_before P_def by auto
  then have "\<not> hd (filter P [0..<length s]) < i" using hdP by blast
  moreover have "hd (filter P [0..<length s]) \<noteq> i" using hdP assms(2) by (auto simp: P_def)
  ultimately have "i < hd (valid_positions s)" by (simp add: valid_positions_def P_def)
  then show ?thesis using False assms(1,2) by (simp add: pd_interpolate_linear_def Let_def)
qed

lemma pd_interpolate_gap:
  assumes "i < length s" "s ! i = None" "any_true (before_mask s i)"
  shows "pd_interpolate_linear s ! i
         = np_interp i (map (\<lambda>j. (j, s ! j)) (valid_positions s))"
proof -
  define P where "P = (\<lambda>j. s ! j \<noteq> None)"
  have L: "left_idx s i < i" "left_idx s i < length s" "P (left_idx s i)"
    using left_idx_props [OF assms(3)] by (simp_all add: P_def)
  then have ne: "filter P [0..<length s] \<noteq> []"
    by (auto simp: filter_empty_conv)
  have "\<not> P j" if "j < hd (filter P [0..<length s])" for j
    using hd_filter_props [OF ne] that by simp
  then have "\<not> left_idx s i < hd (filter P [0..<length s])" using L(3) by blast
  then have "\<not> i < hd (valid_positions s)" using L(1) by (simp add: valid_positions_def P_def)
  moreover have "valid_positions s \<noteq> []" using ne by (simp add: valid_positions_def P_def)
  ultimately show ?thesis using assms(1,2) by (simp add: pd_interpolate_linear_def Let_def)
qed


lemma pd_interpolate_trailing:
  assumes i: "i < length s" and g: "s ! i = None"
    and b: "any_true (before_mask s i)" and a: "\<not> any_true (after_mask s i)"
  shows "pd_interpolate_linear s ! i = s ! left_idx s i"
proof -
  define P where "P = (\<lambda>j. s ! j \<noteq> None)"
  define f where "f = (\<lambda>j. (j, s ! j))"
  define A where "A = filter P [0..<i]"
  have mi: "min i (length s) = i" using i by simp
  have Ane: "A \<noteq> []" using b by (simp add: any_before_filter A_def P_def mi)
  have Be: "filter P [i..<length s] = []" using a by (simp add: any_after_filter P_def)
  have L: "left_idx s i = last A" by (simp add: left_idx_eq A_def P_def mi)
  have vp: "valid_positions s = A"
    using valid_positions_split [of i s] i Be by (simp add: A_def P_def)
  have small: "\<forall>p\<in>set (map f A). fst p < i"
    by (auto simp: A_def f_def)
  have "np_interp i (map f A) = snd (last (map f A))"
    using small Ane by (intro np_interp_right) simp_all
  also have "\<dots> = s ! left_idx s i" using Ane L by (simp add: last_map f_def)
  finally show ?thesis using pd_interpolate_gap [OF i g b] by (simp add: f_def vp)
qed


lemma interpolate_numeric_char:
  "\<exists>ds. interpolate_numeric fr s = Inr (pd_interpolate_linear s, ds)
        \<and> map missing_index ds
            = filter (\<lambda>i. s ! i = None \<and> any_true (before_mask s i) \<and> any_true (after_mask s i))
                [0..<length s]
        \<and> (\<forall>d\<in>set ds. calculate_interpolation fr s (missing_index d) = Inr (Some d))"
proof -
  from collect_details_char [of fr s "missing_indices s" "[]"] obtain ds where
    ds: "collect_details fr s (missing_indices s) [] = Inr ([] @ ds)"
    "map missing_index ds
       = filter (\<lambda>i. any_true (before_mask s i) \<and> any_true (after_mask s i)) (missing_indices s)"
    "\<forall>d\<in>set ds. calculate_interpolation fr s (missing_index d) = Inr (Some d)"
    by blast
  have "interpolate_numeric fr s = Inr (pd_interpolate_linear s, ds)"
    using ds(1) by (simp add: interpolate_numeric_def)
  moreover have "map missing_index ds
            = filter (\<lambda>i. s ! i = None \<and> any_true (before_mask s i) \<and> any_true (after_mask s i))
                [0..<length s]"
    using ds(2) by (simp add: missing_indices_eq conj_commute)
  ultimately show ?thesis using ds(3) by blast
qed



section \<open>Claims about \<open>interpolate_numeric\<close>\<close>

text \<open>
  Claim C2, as stated, fails in binary64. In the column \<open>[0, absent, absent, 0.135]\<close> the
  record for position 1 carries \<open>0 + (0.135 - 0) * (1 / 3)\<close> rounded, which is 0.04, while
  the repaired cell holds \<open>(0.135 - 0) / 3 * 1 + 0 = 0.045000000000000005\<close>, which rounds
  to 0.05: the record and the cell are computed by two different formulas, equal in exact
  arithmetic only. And between an infinite value and the opposite infinite value the
  interior gap gets a record but stays absent.
\<close>

theorem interpolate_numeric_rounded_cell_counterexample:
  "(case interpolate_numeric (\<lambda>v. []) [Some (Fin 0), None, None, Some (to_float64 (135 / 1000))] of
      Inl e \<Rightarrow> False
    | Inr (s', ds) \<Rightarrow>
        map missing_index ds = [1, 2]
        \<and> interpolated_value (ds ! 0) = Some (to_float64 (4 / 100))
        \<and> round2 (s' ! 1) = Some (to_float64 (5 / 100))
        \<and> round2 (s' ! 1) \<noteq> interpolated_value (ds ! 0))
   \<and> (case interpolate_numeric (\<lambda>v. []) [Some PInf, None, Some NInf] of
        Inl e \<Rightarrow> False
      | Inr (s', ds) \<Rightarrow> map missing_index ds = [1] \<and> s' ! 1 = None)"
  by code_simp



text \<open>
  Claim C10. Boundary gaps are treated asymmetrically. A gap with no present cell before
  it stays absent in the repaired column; a gap with a present cell before it and none
  after it is filled with the value of the nearest present cell before it. Neither kind
  of gap gets a record.
\<close>

theorem interpolate_numeric_boundary_gaps:
  "\<exists>s' ds. interpolate_numeric fr series = Inr (s', ds)
     \<and> (\<forall>i<length series. series ! i = None \<and> (\<forall>j<i. series ! j = None)
            \<longrightarrow> s' ! i = None \<and> i \<notin> set (map missing_index ds))
     \<and> (\<forall>i<length series. series ! i = None \<and> (\<exists>j<i. series ! j \<noteq> None)
              \<and> (\<forall>j. i < j \<and> j < length series \<longrightarrow> series ! j = None)
            \<longrightarrow> (\<exists>L<i. series ! L \<noteq> None \<and> (\<forall>j. L < j \<and> j < i \<longrightarrow> series ! j = None)
                       \<and> s' ! i = series ! L)
                \<and> i \<notin> set (map missing_index ds))"
proof -
  from interpolate_numeric_char [of fr series] obtain ds where
    r: "interpolate_numeric fr series = Inr (pd_interpolate_linear series, ds)"
    and m: "map missing_index ds
            = filter (\<lambda>i. series ! i = None \<and> any_true (before_mask series i)
                           \<and> any_true (after_mask series i)) [0..<length series]"
    and c: "\<forall>d\<in>set ds. calculate_interpolation fr series (missing_index d) = Inr (Some d)"
    by (elim exE conjE) (rule that, assumption+)
  have lead: "pd_interpolate_linear series ! i = None \<and> i \<notin> set (map missing_index ds)"
    if i: "i < length series" and g: "series ! i = None" and n: "\<forall>j<i. series ! j = None" for i
  proof -
    have nb: "\<not> any_true (before_mask series i)" using n by (simp add: any_before)
    have "pd_interpolate_linear series ! i = None" by (rule pd_interpolate_leading [OF i g nb])
    moreover have "i \<notin> set (map missing_index ds)" unfolding m using nb by simp
    ultimately show ?thesis by blast
  qed
  have trail: "(\<exists>L<i. series ! L \<noteq> None \<and> (\<forall>j. L < j \<and> j < i \<longrightarrow> series ! j = None)
                       \<and> pd_interpolate_linear series ! i = series ! L)
                \<and> i \<notin> set (map missing_index ds)"
    if i: "i < length series" and g: "series ! i = None" and e: "\<exists>j<i. series ! j \<noteq> None"
      and n: "\<forall>j. i < j \<and> j < length series \<longrightarrow> series ! j = None" for i
  proof -
    have b: "any_true (before_mask series i)"
    proof -
      from e obtain j where j: "j < i" "series ! j \<noteq> None" by auto
      then have "j < i \<and> j < length series \<and> series ! j \<noteq> None" using i by simp
      then show ?thesis unfolding any_before by (rule exI)
    qed
    have na: "\<not> any_true (after_mask series i)"
    proof
      assume "any_true (after_mask series i)"
      then obtain j where j: "i \<le> j" "j < length series" "series ! j \<noteq> None"
        unfolding any_after by (elim exE conjE) (rule that, assumption+)
      have "j \<noteq> i" using j(3) g by auto
      then have "i < j" using j(1) by simp
      then show False using n j(2,3) by simp
    qed
    define L where "L = left_idx series i"
    have Lp: "L < i" "series ! L \<noteq> None" "\<forall>j. L < j \<and> j < i \<and> j < length series \<longrightarrow> series ! j = None"
      using left_idx_props [OF b] by (simp_all add: L_def)
    have between: "\<forall>j. L < j \<and> j < i \<longrightarrow> series ! j = None"
    proof (intro allI impI)
      fix j assume j: "L < j \<and> j < i"
      then have "j < length series" using i by simp
      then show "series ! j = None" using Lp(3) j by simp
    qed
    have "pd_interpolate_linear series ! i = series ! L"
      unfolding L_def by (rule pd_interpolate_trailing [OF i g b na])
    moreover have "i \<notin> set (map missing_index ds)" unfolding m using na by simp
    ultimately have "L < i \<and> series ! L \<noteq> None \<and> (\<forall>j. L < j \<and> j < i \<longrightarrow> series ! j = None)
                       \<and> pd_interpolate_linear series ! i = series ! L"
      and "i \<notin> set (map missing_index ds)"
      using Lp(1,2) between by simp_all
    then show ?thesis by (intro conjI exI [of _ L]) simp_all
  qed
  have A: "\<forall>i<length series. series ! i = None \<and> (\<forall>j<i. series ! j = None)
            \<longrightarrow> pd_interpolate_linear series ! i = None \<and> i \<notin> set (map missing_index ds)"
  proof (intro allI impI)
    fix i assume a: "i < length series" and b: "series ! i = None \<and> (\<forall>j<i. series ! j = None)"
    show "pd_interpolate_linear series ! i = None \<and> i \<notin> set (map missing_index ds)"
      by (rule lead [OF a conjunct1 [OF b] conjunct2 [OF b]])
  qed
  have B: "\<forall>i<length series. series ! i = None \<and> (\<exists>j<i. series ! j \<noteq> None)
              \<and> (\<forall>j. i < j \<and> j < length series \<longrightarrow> series ! j = None)
            \<longrightarrow> (\<exists>L<i. series ! L \<noteq> None \<and> (\<forall>j. L < j \<and> j < i \<longrightarrow> series ! j = None)
                       \<and> pd_interpolate_linear series ! i = series ! L)
                \<and> i \<notin> set (map missing_index ds)"
  proof (intro allI impI)
    fix i assume a: "i < length series" and b: "series ! i = None \<and> (\<exists>j<i. series ! j \<noteq> None)
              \<and> (\<forall>j. i < j \<and> j < length series \<longrightarrow> series ! j = None)"
    show "(\<exists>L<i. series ! L \<noteq> None \<and> (\<forall>j. L < j \<and> j < i \<longrightarrow> series ! j = None)
                       \<and> pd_interpolate_linear series ! i = series ! L)
                \<and> i \<notin> set (map missing_index ds)"
      by (rule trail [OF a conjunct1 [OF b] conjunct1 [OF conjunct2 [OF b]]
                     conjunct2 [OF conjunct2 [OF b]]])
  qed
  show ?thesis by (intro exI conjI) (rule r, rule A, rule B)
qed

theorem interpolate_numeric_boundary_gaps_witness:
  "\<exists>s' ds. interpolate_numeric (\<lambda>v. []) [None, Some (Fin 5), None] = Inr (s', ds)
     \<and> s' ! 0 = None \<and> s' ! 2 = Some (Fin 5)
     \<and> 0 \<notin> set (map missing_index ds) \<and> 2 \<notin> set (map missing_index ds)"
proof -
  let ?X = "[None, Some (Fin 5), None]"
  from interpolate_numeric_boundary_gaps [of "(\<lambda>v. [])" ?X]
  obtain s' ds where h: "interpolate_numeric (\<lambda>v. []) ?X = Inr (s', ds)"
    and lead: "\<forall>i<length ?X. ?X ! i = None \<and> (\<forall>j<i. ?X ! j = None)
            \<longrightarrow> s' ! i = None \<and> i \<notin> set (map missing_index ds)"
    and trail: "\<forall>i<length ?X. ?X ! i = None \<and> (\<exists>j<i. ?X ! j \<noteq> None)
              \<and> (\<forall>j. i < j \<and> j < length ?X \<longrightarrow> ?X ! j = None)
            \<longrightarrow> (\<exists>L<i. ?X ! L \<noteq> None \<and> (\<forall>j. L < j \<and> j < i \<longrightarrow> ?X ! j = None)
                       \<and> s' ! i = ?X ! L)
                \<and> i \<notin> set (map missing_index ds)"
    by blast
  have l0: "s' ! 0 = None \<and> 0 \<notin> set (map missing_index ds)"
    using lead [rule_format, of 0] by simp
  have e: "\<exists>j<2. ?X ! j \<noteq> None" by (rule exI [of _ 1]) simp
  have n: "\<forall>j. 2 < j \<and> j < length ?X \<longrightarrow> ?X ! j = None" by simp
  have x2: "(2::nat) < length ?X" "?X ! 2 = None" by simp_all
  from trail [rule_format, of 2] x2 e n
  obtain L where L: "L < 2" "?X ! L \<noteq> None" "s' ! 2 = ?X ! L"
    and n2: "2 \<notin> set (map missing_index ds)" by blast
  have "L = 0 \<or> L = 1" using L(1) by arith
  then have "L = 1" using L(2) by auto
  then have "s' ! 2 = Some (Fin 5)" using L(3) by simp
  then show ?thesis using h l0 n2 by blast
qed


section \<open>The loop of the coordinator\<close>

lemma extend_report_sel [simp]:
  "numeric_fields_missing (extend_report rep dn dc dw dd) = numeric_fields_missing rep + dn"
  "categorical_fields_missing (extend_report rep dn dc dw dd) = categorical_fields_missing rep + dc"
  "columns_with_missing (extend_report rep dn dc dw dd) = columns_with_missing rep @ dw"
  "interpolation_details (extend_report rep dn dc dw dd) = interpolation_details rep @ dd"
  by (simp_all add: extend_report_def)

lemma extend_report_twice:
  "extend_report (extend_report rep a b c d) a' b' c' d'
   = extend_report rep (a + a') (b + b') (c @ c') (d @ d')"
  by (simp add: extend_report_def)

lemma extend_report_zero: "extend_report rep 0 0 [] [] = rep"
  by (simp add: extend_report_def)

lemma repair_column_eq:
  "repair_column fr names n c rep =
     (if 1 < count_list names n then Inl ValueError
      else if series_missing_count c = 0 then Inr (c, rep)
      else if detect_data_types n = Numeric then
        (case c of
           Object s \<Rightarrow> Inl TypeError
         | Float64 s \<Rightarrow>
             (case interpolate_numeric fr s of
                Inl e \<Rightarrow> Inl e
              | Inr (s', ds) \<Rightarrow>
                  Inr (Float64 s',
                       extend_report rep (series_missing_count c) 0 [n] (map (with_column n) ds))))
      else if detect_data_types n = Categorical then
        Inr (fill_categorical c, extend_report rep 0 (series_missing_count c) [n] [])
      else Inr (c, extend_report rep 0 0 [n] []))"
  by (simp add: repair_column_def Let_def extend_report_def
           split: series.splits sum.splits prod.splits)

lemma interpolate_numeric_total: "\<exists>s' ds. interpolate_numeric fr s = Inr (s', ds)"
  using interpolate_numeric_char [of fr s] by (elim exE conjE) (intro exI, assumption)

lemma column_with_column [simp]: "column (with_column n d) = n"
  by (simp add: with_column_def)

lemma repair_column_delta:
  "(\<exists>e. \<forall>rep. repair_column fr names n c rep = Inl e)
   \<or> (\<exists>c' dd.
         (\<forall>rep. repair_column fr names n c rep
                 = Inr (c', extend_report rep
                              (if detect_data_types n = Numeric then series_missing_count c else 0)
                              (if detect_data_types n = Categorical then series_missing_count c else 0)
                              (if 0 < series_missing_count c then [n] else [])
                              dd))
         \<and> \<not> 1 < count_list names n
         \<and> (\<forall>d\<in>set dd. column d = n \<and> detect_data_types n = Numeric
                           \<and> 0 < series_missing_count c)
         \<and> (series_missing_count c = 0 \<or> detect_data_types n = Identifier \<longrightarrow> c' = c))"
proof (cases "1 < count_list names n")
  case True
  then have "\<forall>rep. repair_column fr names n c rep = Inl ValueError"
    by (simp add: repair_column_eq)
  then show ?thesis by blast
next
  case nodup: False
  show ?thesis
  proof (cases "series_missing_count c = 0")
    case True
    have "\<forall>rep. repair_column fr names n c rep = Inr (c, extend_report rep 0 0 [] [])"
      using nodup True by (simp add: repair_column_eq extend_report_zero)
    then show ?thesis using nodup True by (intro disjI2 exI [of _ c] exI [of _ "[]"]) simp
  next
    case gaps: False
    show ?thesis
    proof (cases "detect_data_types n")
      case Numeric
      show ?thesis
      proof (cases c)
        case (Object s)
        then have "\<forall>rep. repair_column fr names n c rep = Inl TypeError"
          using nodup gaps Numeric by (simp add: repair_column_eq)
        then show ?thesis by blast
      next
        case (Float64 s)
        obtain s' ds where i: "interpolate_numeric fr s = Inr (s', ds)"
          using interpolate_numeric_total [of fr s] by (elim exE)
        have "\<forall>rep. repair_column fr names n c rep
              = Inr (Float64 s', extend_report rep (series_missing_count c) 0 [n]
                                   (map (with_column n) ds))"
          using nodup gaps Numeric Float64 i by (simp add: repair_column_eq)
        then show ?thesis using nodup gaps Numeric
          by (intro disjI2 exI [of _ "Float64 s'"] exI [of _ "map (with_column n) ds"]) simp
      qed
    next
      case Categorical
      have "\<forall>rep. repair_column fr names n c rep
              = Inr (fill_categorical c, extend_report rep 0 (series_missing_count c) [n] [])"
        using nodup gaps Categorical by (simp add: repair_column_eq)
      then show ?thesis using nodup gaps Categorical
        by (intro disjI2 exI [of _ "fill_categorical c"] exI [of _ "[]"]) simp
    next
      case Identifier
      have "\<forall>rep. repair_column fr names n c rep = Inr (c, extend_report rep 0 0 [n] [])"
        using nodup gaps Identifier by (simp add: repair_column_eq)
      then show ?thesis using nodup gaps Identifier
        by (intro disjI2 exI [of _ c] exI [of _ "[]"]) simp
    qed
  qed
qed

lemma repair_columns_delta:
  "(\<exists>e. \<forall>rep. repair_columns fr names cols rep = Inl e)
   \<or> (\<exists>cols' dd.
         (\<forall>rep. repair_columns fr names cols rep
                 = Inr (cols', extend_report rep (numeric_gaps cols) (categorical_gaps cols)
                                 (gap_columns cols) dd))
         \<and> (\<forall>n\<in>set (map fst cols). \<not> 1 < count_list names n)
         \<and> (\<forall>d\<in>set dd. detect_data_types (column d) = Numeric
                           \<and> column d \<in> set (gap_columns cols))
         \<and> list_all2 (\<lambda>(n, c) (n', c'). n' = n
                          \<and> (\<forall>r. \<exists>r'. repair_column fr names n c r = Inr (c', r'))) cols cols')"
proof (induction cols)
  case Nil
  have "\<forall>rep. repair_columns fr names [] rep = Inr ([], extend_report rep 0 0 [] [])"
    by (simp add: extend_report_zero)
  then show ?case by (intro disjI2 exI [of _ "[]"]) simp
next
  case (Cons p cols)
  obtain n c where p: "p = (n, c)" by (cases p)
  from repair_column_delta [of fr names n c] show ?case
  proof (elim disjE exE conjE)
    fix e assume "\<forall>rep. repair_column fr names n c rep = Inl e"
    then have "\<forall>rep. repair_columns fr names (p # cols) rep = Inl e" by (simp add: p)
    then show ?thesis by blast
  next
    fix c' d1
    assume col: "\<forall>rep. repair_column fr names n c rep
                 = Inr (c', extend_report rep
                              (if detect_data_types n = Numeric then series_missing_count c else 0)
                              (if detect_data_types n = Categorical then series_missing_count c else 0)
                              (if 0 < series_missing_count c then [n] else [])
                              d1)"
      and nodup: "\<not> 1 < count_list names n"
      and d1: "\<forall>d\<in>set d1. column d = n \<and> detect_data_types n = Numeric
                           \<and> 0 < series_missing_count c"
      and same: "series_missing_count c = 0 \<or> detect_data_types n = Identifier \<longrightarrow> c' = c"
    from Cons.IH show ?thesis
    proof (elim disjE exE conjE)
      fix e assume "\<forall>rep. repair_columns fr names cols rep = Inl e"
      then have "\<forall>rep. repair_columns fr names (p # cols) rep = Inl e"
        using col by (simp add: p)
      then show ?thesis by blast
    next
      fix cols' d2
      assume rest: "\<forall>rep. repair_columns fr names cols rep
                 = Inr (cols', extend_report rep (numeric_gaps cols) (categorical_gaps cols)
                                 (gap_columns cols) d2)"
        and nodups: "\<forall>n\<in>set (map fst cols). \<not> 1 < count_list names n"
        and d2: "\<forall>d\<in>set d2. detect_data_types (column d) = Numeric
                           \<and> column d \<in> set (gap_columns cols)"
        and rel: "list_all2 (\<lambda>(n, c) (n', c'). n' = n
                          \<and> (\<forall>r. \<exists>r'. repair_column fr names n c r = Inr (c', r'))) cols cols'"
      have 1: "\<forall>rep. repair_columns fr names (p # cols) rep
                 = Inr ((n, c') # cols',
                        extend_report rep (numeric_gaps (p # cols)) (categorical_gaps (p # cols))
                                 (gap_columns (p # cols)) (d1 @ d2))"
        using col rest by (simp add: p extend_report_twice)
      have 2: "\<forall>m\<in>set (map fst (p # cols)). \<not> 1 < count_list names m"
        using nodup nodups by (simp add: p)
      have 3: "\<forall>d\<in>set (d1 @ d2). detect_data_types (column d) = Numeric
                           \<and> column d \<in> set (gap_columns (p # cols))"
      proof
        fix d assume "d \<in> set (d1 @ d2)"
        then consider "d \<in> set d1" | "d \<in> set d2" by auto
        then show "detect_data_types (column d) = Numeric
                           \<and> column d \<in> set (gap_columns (p # cols))"
        proof cases
          case 1
          then have "column d = n" "detect_data_types n = Numeric" "0 < series_missing_count c"
            using d1 by simp_all
          then show ?thesis by (simp add: p)
        next
          case 2
          then have "detect_data_types (column d) = Numeric"
            "column d \<in> set (gap_columns cols)" using d2 by simp_all
          then show ?thesis by (simp add: p)
        qed
      qed
      have 4: "list_all2 (\<lambda>(n, c) (n', c'). n' = n
                          \<and> (\<forall>r. \<exists>r'. repair_column fr names n c r = Inr (c', r'))) (p # cols) ((n, c') # cols')"
        using rel col by (simp add: p)
      show ?thesis
        by (intro disjI2 exI [of _ "(n, c') # cols'"] exI [of _ "d1 @ d2"] conjI)
           (rule 1, rule 2, rule 3, rule 4)
    qed
  qed
qed

lemma repair_columns_success:
  assumes "repair_columns fr names cols rep = Inr (cols', rep')"
  shows "\<exists>dd. (\<forall>r. repair_columns fr names cols r
                   = Inr (cols', extend_report r (numeric_gaps cols) (categorical_gaps cols)
                                   (gap_columns cols) dd))
            \<and> (\<forall>n\<in>set (map fst cols). \<not> 1 < count_list names n)
            \<and> (\<forall>d\<in>set dd. detect_data_types (column d) = Numeric
                              \<and> column d \<in> set (gap_columns cols))
            \<and> list_all2 (\<lambda>(n, c) (n', c'). n' = n
                          \<and> (\<forall>r. \<exists>r'. repair_column fr names n c r = Inr (c', r'))) cols cols'"
  using repair_columns_delta [of fr names cols]
proof (elim disjE exE conjE)
  fix e assume "\<forall>rep. repair_columns fr names cols rep = Inl e"
  then have "repair_columns fr names cols rep = Inl e" by (rule spec)
  then show ?thesis using assms by simp
next
  fix cols'' dd
  assume a: "\<forall>rep. repair_columns fr names cols rep
                 = Inr (cols'', extend_report rep (numeric_gaps cols) (categorical_gaps cols)
                                 (gap_columns cols) dd)"
    and b: "\<forall>n\<in>set (map fst cols). \<not> 1 < count_list names n"
    and c: "\<forall>d\<in>set dd. detect_data_types (column d) = Numeric
                           \<and> column d \<in> set (gap_columns cols)"
    and d: "list_all2 (\<lambda>(n, c) (n', c'). n' = n
                          \<and> (\<forall>r. \<exists>r'. repair_column fr names n c r = Inr (c', r'))) cols cols''"
  have "repair_columns fr names cols rep
        = Inr (cols'', extend_report rep (numeric_gaps cols) (categorical_gaps cols)
                                 (gap_columns cols) dd)"
    using a by (rule spec)
  then have e: "cols'' = cols'" using assms by simp
  show ?thesis
    by (intro exI [of _ dd] conjI) (rule a [unfolded e], rule b, rule c, rule d [unfolded e])
qed

lemma repair_columns_names_cong:
  assumes "\<forall>n\<in>set (map fst cols). (1 < count_list names n) = (1 < count_list names' n)"
  shows "repair_columns fr names cols rep = repair_columns fr names' cols rep"
  using assms
proof (induction cols arbitrary: rep)
  case Nil
  then show ?case by simp
next
  case (Cons p cols)
  obtain n c where p: "p = (n, c)" by (cases p)
  have t: "(1 < count_list names n) = (1 < count_list names' n)" using Cons.prems by (simp add: p)
  have col: "repair_column fr names n c rep = repair_column fr names' n c rep"
    by (simp only: repair_column_eq t)
  have ih: "repair_columns fr names cols r = repair_columns fr names' cols r" for r
    using Cons.IH Cons.prems by simp
  show ?case by (simp add: p col ih split: sum.splits prod.splits)
qed

lemma repair_columns_append:
  "repair_columns fr names (xs @ ys) rep =
     (case repair_columns fr names xs rep of
        Inl e \<Rightarrow> Inl e
      | Inr (xs', r1) \<Rightarrow>
          (case repair_columns fr names ys r1 of
             Inl e \<Rightarrow> Inl e
           | Inr (ys', r2) \<Rightarrow> Inr (xs' @ ys', r2)))"
proof (induction xs arbitrary: rep)
  case Nil
  then show ?case by (simp split: sum.splits prod.splits)
next
  case (Cons p xs)
  obtain n c where p: "p = (n, c)" by (cases p)
  show ?case by (simp add: p Cons.IH split: sum.splits prod.splits)
qed

lemma repair_columns_total:
  assumes "\<forall>p\<in>set cols. \<not> 1 < count_list names (fst p)
                         \<and> (detect_data_types (fst p) = Numeric \<longrightarrow> is_float64 (snd p))"
  shows "\<exists>cols' rep'. repair_columns fr names cols rep = Inr (cols', rep')"
  using assms
proof (induction cols arbitrary: rep)
  case Nil
  then show ?case by simp
next
  case (Cons p cols)
  obtain n c where p: "p = (n, c)" by (cases p)
  have nodup: "\<not> 1 < count_list names n"
    and typed: "detect_data_types n = Numeric \<longrightarrow> is_float64 c"
    using Cons.prems by (simp_all add: p)
  have "\<exists>c' r1. repair_column fr names n c rep = Inr (c', r1)"
  proof (cases c)
    case (Object s)
    then have "detect_data_types n \<noteq> Numeric" using typed by auto
    then show ?thesis using nodup by (simp add: repair_column_eq)
  next
    case (Float64 s)
    obtain s' ds where "interpolate_numeric fr s = Inr (s', ds)"
      using interpolate_numeric_total [of fr s] by (elim exE)
    then show ?thesis using nodup Float64 by (simp add: repair_column_eq)
  qed
  then obtain c' r1 where col: "repair_column fr names n c rep = Inr (c', r1)" by (elim exE)
  obtain cols' r2 where rest: "repair_columns fr names cols r1 = Inr (cols', r2)"
    using Cons.IH [of r1] Cons.prems by auto
  show ?case using col rest by (simp add: p)
qed

lemma distinct_count_list: "distinct xs \<Longrightarrow> \<not> 1 < count_list xs x"
  by (induction xs) (auto simp: count_list_0_iff)

lemma well_typed_total:
  assumes "well_typed df"
  shows "\<exists>df' rep. handle_missing_values fr df = Inr (df', rep)"
proof -
  have d: "distinct (map fst df)"
    and t: "list_all (\<lambda>(n, c). detect_data_types n = Numeric \<longrightarrow> is_float64 c) df"
    using assms by (simp_all add: well_typed_def)
  have "\<forall>p\<in>set df. \<not> 1 < count_list (map fst df) (fst p)
                         \<and> (detect_data_types (fst p) = Numeric \<longrightarrow> is_float64 (snd p))"
  proof
    fix p assume m: "p \<in> set df"
    have "\<not> 1 < count_list (map fst df) (fst p)" using d by (rule distinct_count_list)
    moreover have "detect_data_types (fst p) = Numeric \<longrightarrow> is_float64 (snd p)"
      using t m by (auto simp: list_all_iff)
    ultimately show "\<not> 1 < count_list (map fst df) (fst p)
                         \<and> (detect_data_types (fst p) = Numeric \<longrightarrow> is_float64 (snd p))"
      by simp
  qed
  then show ?thesis unfolding handle_missing_values_def by (rule repair_columns_total)
qed


lemma handle_missing_values_success:
  assumes "handle_missing_values fr df = Inr (df', rep)"
  shows "\<exists>dd. rep = extend_report empty_report (numeric_gaps df) (categorical_gaps df)
                      (gap_columns df) dd
            \<and> (\<forall>n\<in>set (map fst df). \<not> 1 < count_list (map fst df) n)
            \<and> (\<forall>d\<in>set dd. detect_data_types (column d) = Numeric
                              \<and> column d \<in> set (gap_columns df))
            \<and> list_all2 (\<lambda>(n, c) (n', c'). n' = n
                          \<and> (\<forall>r. \<exists>r'. repair_column fr (map fst df) n c r = Inr (c', r'))) df df'"
proof -
  have run: "repair_columns fr (map fst df) df empty_report = Inr (df', rep)"
    using assms by (simp add: handle_missing_values_def)
  from repair_columns_success [OF run] obtain dd where
    a: "\<forall>r. repair_columns fr (map fst df) df r
             = Inr (df', extend_report r (numeric_gaps df) (categorical_gaps df)
                           (gap_columns df) dd)"
    and b: "\<forall>n\<in>set (map fst df). \<not> 1 < count_list (map fst df) n"
    and c: "\<forall>d\<in>set dd. detect_data_types (column d) = Numeric
                           \<and> column d \<in> set (gap_columns df)"
    and d: "list_all2 (\<lambda>(n, c) (n', c'). n' = n
                          \<and> (\<forall>r. \<exists>r'. repair_column fr (map fst df) n c r = Inr (c', r'))) df df'"
    by (elim exE conjE)
  have "repair_columns fr (map fst df) df empty_report
             = Inr (df', extend_report empty_report (numeric_gaps df) (categorical_gaps df)
                           (gap_columns df) dd)"
    using a by (rule spec)
  then have e: "rep = extend_report empty_report (numeric_gaps df) (categorical_gaps df)
                      (gap_columns df) dd"
    using run by simp
  show ?thesis by (intro exI [of _ dd] conjI) (rule e, rule b, rule c, rule d)
qed

section \<open>Claims about \<open>handle_missing_values\<close>\<close>

text \<open>
  Claim C4. On a well-typed frame \<open>handle_missing_values\<close> returns; and whenever it
  returns, \<open>numeric_fields_missing\<close> is the number of absent cells, counted before the
  repair, summed over the columns classified numeric, whether interpolation resolved them
  or not, and \<open>categorical_fields_missing\<close> is the same sum over the columns classified
  categorical.
\<close>

theorem handle_missing_values_counts:
  "(well_typed df \<longrightarrow> (\<exists>df' rep. handle_missing_values fr df = Inr (df', rep)))
   \<and> (\<forall>df' rep. handle_missing_values fr df = Inr (df', rep) \<longrightarrow>
         numeric_fields_missing rep
           = sum_list (map (\<lambda>(n, c). if detect_data_types n = Numeric
                                      then series_missing_count c else 0) df)
       \<and> categorical_fields_missing rep
           = sum_list (map (\<lambda>(n, c). if detect_data_types n = Categorical
                                      then series_missing_count c else 0) df))"
proof (intro conjI allI impI)
  assume "well_typed df"
  then show "\<exists>df' rep. handle_missing_values fr df = Inr (df', rep)" by (rule well_typed_total)
next
  fix df' rep assume run: "handle_missing_values fr df = Inr (df', rep)"
  from handle_missing_values_success [OF run] obtain dd where
    e: "rep = extend_report empty_report (numeric_gaps df) (categorical_gaps df)
                      (gap_columns df) dd"
    by (elim exE conjE)
  show "numeric_fields_missing rep = numeric_gaps df"
    by (simp add: e empty_report_def)
  show "categorical_fields_missing rep = categorical_gaps df"
    by (simp add: e empty_report_def)
qed

theorem handle_missing_values_counts_witness:
  "well_typed [(''age'', Float64 [None, Some (Fin 5), None, Some (Fin 10), None]),
               (''name'', Object [Some ''x'', None, Some ''y'', None, Some ''x'']),
               (''id'', Object [None, None, None, None, Some ''k''])]
   \<and> (\<exists>df' rep. handle_missing_values (\<lambda>v. [])
          [(''age'', Float64 [None, Some (Fin 5), None, Some (Fin 10), None]),
           (''name'', Object [Some ''x'', None, Some ''y'', None, Some ''x'']),
           (''id'', Object [None, None, None, None, Some ''k''])] = Inr (df', rep)
        \<and> numeric_fields_missing rep = 3 \<and> categorical_fields_missing rep = 2)"
proof -
  let ?df = "[(''age'', Float64 [None, Some (Fin 5), None, Some (Fin 10), None]),
               (''name'', Object [Some ''x'', None, Some ''y'', None, Some ''x'']),
               (''id'', Object [None, None, None, None, Some ''k''])]"
  have wt: "well_typed ?df" by code_simp
  have n: "numeric_gaps ?df = 3" by code_simp
  have c: "categorical_gaps ?df = 2" by code_simp
  from handle_missing_values_counts [of ?df "(\<lambda>v. [])", THEN conjunct1, rule_format, OF wt]
  obtain df' rep where run: "handle_missing_values (\<lambda>v. []) ?df = Inr (df', rep)"
    by (elim exE)
  note k = handle_missing_values_counts [of ?df "(\<lambda>v. [])", THEN conjunct2, rule_format, OF run]
  have k1: "numeric_fields_missing rep = 3" using k [THEN conjunct1] by (simp only: n)
  have k2: "categorical_fields_missing rep = 2" using k [THEN conjunct2] by (simp only: c)
  show ?thesis
    by (intro conjI exI [of _ df'] exI [of _ rep]) (rule wt, rule run, rule k1, rule k2)
qed

lemma names_without_column:
  assumes "\<forall>m\<in>set (map fst (xs @ (n, c) # ys)). \<not> 1 < count_list (map fst (xs @ (n, c) # ys)) m"
  shows "\<forall>m\<in>set (map fst (xs @ ys)).
           (1 < count_list (map fst (xs @ (n, c) # ys)) m) = (1 < count_list (map fst (xs @ ys)) m)"
proof
  fix m assume m: "m \<in> set (map fst (xs @ ys))"
  then have "m \<in> set (map fst (xs @ (n, c) # ys))" by auto
  then have 1: "\<not> 1 < count_list (map fst (xs @ (n, c) # ys)) m" using assms by blast
  have "count_list (map fst (xs @ ys)) m \<le> count_list (map fst (xs @ (n, c) # ys)) m" by simp
  then have "\<not> 1 < count_list (map fst (xs @ ys)) m" using 1 by linarith
  then show "(1 < count_list (map fst (xs @ (n, c) # ys)) m) = (1 < count_list (map fst (xs @ ys)) m)"
    using 1 by simp
qed

lemma remove_column:
  assumes run: "handle_missing_values fr (xs @ (n, c) # ys) = Inr (df', rep)"
    and neutral: "\<forall>r. repair_column fr (map fst (xs @ (n, c) # ys)) n c r
                      = Inr (c, extend_report r 0 0 w [])"
  shows "\<exists>xs' ys' rep0. df' = xs' @ (n, c) # ys' \<and> length xs' = length xs
          \<and> handle_missing_values fr (xs @ ys) = Inr (xs' @ ys', rep0)
          \<and> numeric_fields_missing rep0 = numeric_fields_missing rep
          \<and> categorical_fields_missing rep0 = categorical_fields_missing rep
          \<and> interpolation_details rep0 = interpolation_details rep
          \<and> (w = [] \<longrightarrow> rep0 = rep)"
proof -
  define N where "N = map fst (xs @ (n, c) # ys)"
  have whole: "repair_columns fr N (xs @ (n, c) # ys) empty_report = Inr (df', rep)"
    using run by (simp add: handle_missing_values_def N_def)
  from handle_missing_values_success [OF run]
  have nodup: "\<forall>m\<in>set (map fst (xs @ (n, c) # ys)). \<not> 1 < count_list N m"
    unfolding N_def by (elim exE conjE)
  obtain xs' r1 where x: "repair_columns fr N xs empty_report = Inr (xs', r1)"
    using whole by (auto simp: repair_columns_append split: sum.splits)
  have col: "repair_column fr N n c r1 = Inr (c, extend_report r1 0 0 w [])"
    using neutral unfolding N_def by (rule spec)
  obtain ys' where y: "repair_columns fr N ys (extend_report r1 0 0 w []) = Inr (ys', rep)"
    and d: "df' = xs' @ (n, c) # ys'"
    using whole x col by (auto simp: repair_columns_append split: sum.splits)
  from repair_columns_success [OF y] obtain ddy where
    ya: "\<forall>r. repair_columns fr N ys r
             = Inr (ys', extend_report r (numeric_gaps ys) (categorical_gaps ys)
                           (gap_columns ys) ddy)"
    by (elim exE conjE)
  define rep0 where "rep0 = extend_report r1 (numeric_gaps ys) (categorical_gaps ys)
                           (gap_columns ys) ddy"
  have y1: "repair_columns fr N ys r1 = Inr (ys', rep0)" unfolding rep0_def using ya by (rule spec)
  have y2: "repair_columns fr N ys (extend_report r1 0 0 w [])
            = Inr (ys', extend_report (extend_report r1 0 0 w []) (numeric_gaps ys)
                          (categorical_gaps ys) (gap_columns ys) ddy)"
    using ya by (rule spec)
  have r: "rep = extend_report (extend_report r1 0 0 w []) (numeric_gaps ys)
                          (categorical_gaps ys) (gap_columns ys) ddy"
    using y y2 by simp
  have both: "repair_columns fr N (xs @ ys) empty_report = Inr (xs' @ ys', rep0)"
    using x y1 by (simp add: repair_columns_append)
  have "repair_columns fr N (xs @ ys) empty_report
        = repair_columns fr (map fst (xs @ ys)) (xs @ ys) empty_report"
    unfolding N_def
    by (rule repair_columns_names_cong, rule names_without_column, rule nodup [unfolded N_def])
  then have h: "handle_missing_values fr (xs @ ys) = Inr (xs' @ ys', rep0)"
    using both by (simp add: handle_missing_values_def)
  from repair_columns_success [OF x]
  have "list_all2 (\<lambda>(n, c) (n', c'). n' = n
                          \<and> (\<forall>r. \<exists>r'. repair_column fr N n c r = Inr (c', r'))) xs xs'"
    by (elim exE conjE)
  then have len: "length xs' = length xs" by (simp add: list_all2_lengthD)
  have f1: "numeric_fields_missing rep0 = numeric_fields_missing rep" by (simp add: r rep0_def)
  have f2: "categorical_fields_missing rep0 = categorical_fields_missing rep"
    by (simp add: r rep0_def)
  have f3: "interpolation_details rep0 = interpolation_details rep" by (simp add: r rep0_def)
  have f4: "w = [] \<longrightarrow> rep0 = rep" by (simp add: r rep0_def extend_report_zero)
  show ?thesis
    by (intro exI [of _ xs'] exI [of _ ys'] exI [of _ rep0] conjI)
       (rule d, rule len, rule h, rule f1, rule f2, rule f3, rule f4)
qed




text \<open>
  Claim C7. A column classified as an identifier that has gaps is listed in
  \<open>columns_with_missing\<close> and is not repaired: it stands in the returned frame at its
  position with every cell as before. It adds nothing to the report besides its name: no
  record carries its name, and both counts and the list of records are those of the same
  frame without this column.
\<close>

theorem identifier_column_untouched:
  "handle_missing_values fr (xs @ (n, c) # ys) = Inr (df', rep)
     \<and> detect_data_types n = Identifier \<and> 0 < series_missing_count c
   \<longrightarrow> n \<in> set (columns_with_missing rep)
       \<and> length df' = length (xs @ (n, c) # ys) \<and> df' ! length xs = (n, c)
       \<and> (\<forall>d\<in>set (interpolation_details rep). column d \<noteq> n)
       \<and> (\<exists>df0 rep0. handle_missing_values fr (xs @ ys) = Inr (df0, rep0)
              \<and> df' = take (length xs) df0 @ (n, c) # drop (length xs) df0
              \<and> numeric_fields_missing rep0 = numeric_fields_missing rep
              \<and> categorical_fields_missing rep0 = categorical_fields_missing rep
              \<and> interpolation_details rep0 = interpolation_details rep)"
proof (intro impI, elim conjE)
  assume run: "handle_missing_values fr (xs @ (n, c) # ys) = Inr (df', rep)"
    and ident: "detect_data_types n = Identifier" and gaps: "0 < series_missing_count c"
  define N where "N = map fst (xs @ (n, c) # ys)"
  from handle_missing_values_success [OF run] obtain dd where
    e: "rep = extend_report empty_report (numeric_gaps (xs @ (n, c) # ys))
              (categorical_gaps (xs @ (n, c) # ys)) (gap_columns (xs @ (n, c) # ys)) dd"
    and nodup: "\<forall>m\<in>set (map fst (xs @ (n, c) # ys)). \<not> 1 < count_list N m"
    and num: "\<forall>d\<in>set dd. detect_data_types (column d) = Numeric
                           \<and> column d \<in> set (gap_columns (xs @ (n, c) # ys))"
    and rel: "list_all2 (\<lambda>(n, c) (n', c'). n' = n
           \<and> (\<forall>r. \<exists>r'. repair_column fr N n c r = Inr (c', r')))
          (xs @ (n, c) # ys) df'"
    unfolding N_def by (elim exE conjE)
  have "\<not> 1 < count_list N n" using nodup by simp
  then have neutral: "\<forall>r. repair_column fr (map fst (xs @ (n, c) # ys)) n c r
                      = Inr (c, extend_report r 0 0 [n] [])"
    using ident gaps by (simp add: repair_column_eq N_def)
  from remove_column [OF run neutral] obtain xs' ys' rep0 where
    d: "df' = xs' @ (n, c) # ys'" and len: "length xs' = length xs"
    and h: "handle_missing_values fr (xs @ ys) = Inr (xs' @ ys', rep0)"
    and f1: "numeric_fields_missing rep0 = numeric_fields_missing rep"
    and f2: "categorical_fields_missing rep0 = categorical_fields_missing rep"
    and f3: "interpolation_details rep0 = interpolation_details rep"
    by (elim exE conjE)
  have 1: "n \<in> set (columns_with_missing rep)" using gaps by (simp add: e)
  have 2: "length df' = length (xs @ (n, c) # ys)"
    using list_all2_lengthD [OF rel] by simp
  have 3: "df' ! length xs = (n, c)" using d len by (simp add: nth_append)
  have 4: "\<forall>d\<in>set (interpolation_details rep). column d \<noteq> n"
  proof
    fix d assume "d \<in> set (interpolation_details rep)"
    then have "d \<in> set dd" by (simp add: e empty_report_def)
    then have "detect_data_types (column d) = Numeric" using num by simp
    then show "column d \<noteq> n" using ident by auto
  qed
  have t: "df' = take (length xs) (xs' @ ys') @ (n, c) # drop (length xs) (xs' @ ys')"
    using d len by simp
  have 5: "\<exists>df0 rep0. handle_missing_values fr (xs @ ys) = Inr (df0, rep0)
              \<and> df' = take (length xs) df0 @ (n, c) # drop (length xs) df0
              \<and> numeric_fields_missing rep0 = numeric_fields_missing rep
              \<and> categorical_fields_missing rep0 = categorical_fields_missing rep
              \<and> interpolation_details rep0 = interpolation_details rep"
    by (intro exI [of _ "xs' @ ys'"] exI [of _ rep0] conjI) (rule h, rule t, rule f1, rule f2, rule f3)
  show "n \<in> set (columns_with_missing rep)
       \<and> length df' = length (xs @ (n, c) # ys) \<and> df' ! length xs = (n, c)
       \<and> (\<forall>d\<in>set (interpolation_details rep). column d \<noteq> n)
       \<and> (\<exists>df0 rep0. handle_missing_values fr (xs @ ys) = Inr (df0, rep0)
              \<and> df' = take (length xs) df0 @ (n, c) # drop (length xs) df0
              \<and> numeric_fields_missing rep0 = numeric_fields_missing rep
              \<and> categorical_fields_missing rep0 = categorical_fields_missing rep
              \<and> interpolation_details rep0 = interpolation_details rep)"
    by (intro conjI) (rule 1, rule 2, rule 3, rule 4, rule 5)
qed

theorem identifier_column_untouched_witness:
  "\<exists>df' rep. handle_missing_values (\<lambda>v. [])
        [(''age'', Float64 [Some (Fin 1), None, Some (Fin 3)]),
         (''id'', Object [None, Some ''q'', None]),
         (''name'', Object [Some ''x'', None, Some ''x''])] = Inr (df', rep)
     \<and> ''id'' \<in> set (columns_with_missing rep)
     \<and> df' ! 1 = (''id'', Object [None, Some ''q'', None])
     \<and> (\<forall>d\<in>set (interpolation_details rep). column d \<noteq> ''id'')"
proof -
  let ?a = "(''age'', Float64 [Some (Fin 1), None, Some (Fin 3)])"
  let ?c = "Object [None, Some ''q'', None]"
  let ?b = "(''name'', Object [Some ''x'', None, Some ''x''])"
  have wt: "well_typed ([?a] @ (''id'', ?c) # [?b])" by code_simp
  from well_typed_total [OF wt, of "(\<lambda>v. [])"] obtain df' rep where
    run: "handle_missing_values (\<lambda>v. []) ([?a] @ (''id'', ?c) # [?b]) = Inr (df', rep)"
    by (elim exE)
  have ident: "detect_data_types ''id'' = Identifier" by code_simp
  have gaps: "0 < series_missing_count ?c" by code_simp
  note t = identifier_column_untouched
             [of "(\<lambda>v. [])" "[?a]" "''id''" ?c "[?b]" df' rep, THEN mp,
              OF conjI [OF run conjI [OF ident gaps]]]
  have 1: "''id'' \<in> set (columns_with_missing rep)" using t by (elim conjE)
  have 2: "df' ! 1 = (''id'', ?c)" using t by (elim conjE) simp
  have 3: "\<forall>d\<in>set (interpolation_details rep). column d \<noteq> ''id''" using t by (elim conjE)
  have run': "handle_missing_values (\<lambda>v. []) [?a, (''id'', ?c), ?b] = Inr (df', rep)"
    using run by simp
  show ?thesis
    by (intro exI [of _ df'] exI [of _ rep] conjI) (rule run', rule 1, rule 2, rule 3)
qed

text \<open>
  Claim C8. A column without gaps is returned unchanged at its position, its name is not
  in \<open>columns_with_missing\<close>, and the whole report is the report of the same frame without
  this column.
\<close>

theorem complete_column_unchanged:
  "handle_missing_values fr (xs @ (n, c) # ys) = Inr (df', rep) \<and> series_missing_count c = 0
   \<longrightarrow> n \<notin> set (columns_with_missing rep)
       \<and> length df' = length (xs @ (n, c) # ys) \<and> df' ! length xs = (n, c)
       \<and> (\<exists>df0. handle_missing_values fr (xs @ ys) = Inr (df0, rep)
              \<and> df' = take (length xs) df0 @ (n, c) # drop (length xs) df0)"
proof (intro impI, elim conjE)
  assume run: "handle_missing_values fr (xs @ (n, c) # ys) = Inr (df', rep)"
    and full: "series_missing_count c = 0"
  define N where "N = map fst (xs @ (n, c) # ys)"
  from handle_missing_values_success [OF run] obtain dd where
    e: "rep = extend_report empty_report (numeric_gaps (xs @ (n, c) # ys))
              (categorical_gaps (xs @ (n, c) # ys)) (gap_columns (xs @ (n, c) # ys)) dd"
    and nodup: "\<forall>m\<in>set (map fst (xs @ (n, c) # ys)). \<not> 1 < count_list N m"
    and num: "\<forall>d\<in>set dd. detect_data_types (column d) = Numeric
                           \<and> column d \<in> set (gap_columns (xs @ (n, c) # ys))"
    and rel: "list_all2 (\<lambda>(n, c) (n', c'). n' = n
           \<and> (\<forall>r. \<exists>r'. repair_column fr N n c r = Inr (c', r')))
          (xs @ (n, c) # ys) df'"
    unfolding N_def by (elim exE conjE)
  have once: "\<not> 1 < count_list N n" using nodup by simp
  then have neutral: "\<forall>r. repair_column fr (map fst (xs @ (n, c) # ys)) n c r
                      = Inr (c, extend_report r 0 0 [] [])"
    using full by (simp add: repair_column_eq N_def extend_report_zero)
  from remove_column [OF run neutral] obtain xs' ys' rep0 where
    d: "df' = xs' @ (n, c) # ys'" and len: "length xs' = length xs"
    and h: "handle_missing_values fr (xs @ ys) = Inr (xs' @ ys', rep0)"
    and same: "[] = ([] :: string list) \<longrightarrow> rep0 = rep"
    by (elim exE conjE)
  have r: "rep0 = rep" using same by simp
  have c0: "count_list (map fst xs) n = 0" "count_list (map fst ys) n = 0"
    using once by (simp_all add: N_def)
  have nx: "n \<notin> set (map fst xs)" using c0(1) by (simp add: count_list_0_iff)
  have ny: "n \<notin> set (map fst ys)" using c0(2) by (simp add: count_list_0_iff)
  have "n \<notin> set (gap_columns xs)" "n \<notin> set (gap_columns ys)" using nx ny by auto
  then have 1: "n \<notin> set (columns_with_missing rep)"
    using full by (simp add: e empty_report_def)
  have 2: "length df' = length (xs @ (n, c) # ys)"
    using list_all2_lengthD [OF rel] by simp
  have 3: "df' ! length xs = (n, c)" using d len by (simp add: nth_append)
  have t: "df' = take (length xs) (xs' @ ys') @ (n, c) # drop (length xs) (xs' @ ys')"
    using d len by simp
  have 4: "\<exists>df0. handle_missing_values fr (xs @ ys) = Inr (df0, rep)
              \<and> df' = take (length xs) df0 @ (n, c) # drop (length xs) df0"
    by (intro exI [of _ "xs' @ ys'"] conjI) (rule h [unfolded r], rule t)
  show "n \<notin> set (columns_with_missing rep)
       \<and> length df' = length (xs @ (n, c) # ys) \<and> df' ! length xs = (n, c)
       \<and> (\<exists>df0. handle_missing_values fr (xs @ ys) = Inr (df0, rep)
              \<and> df' = take (length xs) df0 @ (n, c) # drop (length xs) df0)"
    by (intro conjI) (rule 1, rule 2, rule 3, rule 4)
qed

theorem complete_column_unchanged_witness:
  "\<exists>df' rep. handle_missing_values (\<lambda>v. [])
        [(''age'', Float64 [Some (Fin 1), None, Some (Fin 3)]),
         (''name'', Object [Some ''x'', Some ''y'', Some ''x''])] = Inr (df', rep)
     \<and> ''name'' \<notin> set (columns_with_missing rep)
     \<and> df' ! 1 = (''name'', Object [Some ''x'', Some ''y'', Some ''x''])"
proof -
  let ?a = "(''age'', Float64 [Some (Fin 1), None, Some (Fin 3)])"
  let ?c = "Object [Some ''x'', Some ''y'', Some ''x'']"
  have wt: "well_typed ([?a] @ (''name'', ?c) # [])" by code_simp
  from well_typed_total [OF wt, of "(\<lambda>v. [])"] obtain df' rep where
    run: "handle_missing_values (\<lambda>v. []) ([?a] @ (''name'', ?c) # []) = Inr (df', rep)"
    by (elim exE)
  have full: "series_missing_count ?c = 0" by code_simp
  note t = complete_column_unchanged
             [of "(\<lambda>v. [])" "[?a]" "''name''" ?c "[]" df' rep, THEN mp, OF conjI [OF run full]]
  have 1: "''name'' \<notin> set (columns_with_missing rep)" using t by (elim conjE)
  have 2: "df' ! 1 = (''name'', ?c)" using t by (elim conjE) simp
  have run': "handle_missing_values (\<lambda>v. []) [?a, (''name'', ?c)] = Inr (df', rep)"
    using run by simp
  show ?thesis
    by (intro exI [of _ df'] exI [of _ rep] conjI) (rule run', rule 1, rule 2)
qed



text \<open>
  Claim C5, as stated, fails for \<open>handle_missing_values\<close>. A column named \<open>age\<close> that holds
  text and has a gap is handed to the interpolation engine, which raises \<open>TypeError\<close>:
  so does a table of a single row whose only cell, under \<open>age\<close>, is an absent object, and
  so does a table with an all-absent column \<open>name\<close> next to a column \<open>age\<close> of text with a
  gap.
\<close>

theorem handle_missing_values_text_under_age_counterexample:
  "handle_missing_values (\<lambda>v. []) [(''age'', Object [None])] = Inl TypeError
   \<and> handle_missing_values (\<lambda>v. [])
        [(''name'', Float64 [None, None, None]),
         (''age'', Object [Some ''a'', None, Some ''b''])] = Inl TypeError"
  by code_simp



lemma count_dropna: "count_list (dropna s) v = count_list s (Some v)"
  by (induction s) (auto simp: dropna_def)

lemma set_dropna: "v \<in> set (dropna s) \<longleftrightarrow> Some v \<in> set s"
  by (induction s) (auto simp: dropna_def)

lemma dropna_empty: "dropna s = [] \<longleftrightarrow> (\<forall>c\<in>set s. c = None)"
  by (induction s) (auto simp: dropna_def)

lemma fold_max_ge: "a \<le> fold max xs (a::nat)"
  by (induction xs arbitrary: a) (auto intro: order_trans [OF max.cobounded2])

lemma fold_max_upper: "x \<in> set xs \<Longrightarrow> x \<le> fold max xs (a::nat)"
proof (induction xs arbitrary: a)
  case Nil
  then show ?case by simp
next
  case (Cons y ys)
  show ?case
  proof (cases "x = y")
    case True
    have "x \<le> max y a" using True by simp
    also have "\<dots> \<le> fold max ys (max y a)" by (rule fold_max_ge)
    finally show ?thesis by simp
  next
    case False
    then have "x \<in> set ys" using Cons.prems by simp
    then show ?thesis using Cons.IH by simp
  qed
qed

lemma fold_max_attained: "fold max xs (a::nat) = a \<or> fold max xs a \<in> set xs"
proof (induction xs arbitrary: a)
  case Nil
  then show ?case by simp
next
  case (Cons y ys)
  from Cons.IH [of "max y a"] show ?case
  proof
    assume h: "fold max ys (max y a) = max y a"
    show ?thesis
    proof (cases "y \<le> a")
      case True
      then have "max y a = a" by simp
      then show ?thesis using h by simp
    next
      case False
      then have "max y a = y" by simp
      then show ?thesis using h by simp
    qed
  next
    assume "fold max ys (max y a) \<in> set ys"
    then show ?thesis by simp
  qed
qed

lemma top_count_upper: "count_list vals v \<le> top_count vals"
proof (cases "v \<in> set vals")
  case True
  then have "count_list vals v \<in> set (map (count_list vals) vals)" by simp
  then show ?thesis unfolding top_count_def by (rule fold_max_upper)
next
  case False
  then have "count_list vals v = 0" by (simp add: count_list_0_iff)
  then show ?thesis by simp
qed

lemma top_count_attained:
  assumes "vals \<noteq> []"
  shows "\<exists>v\<in>set vals. count_list vals v = top_count vals"
proof -
  obtain x where x: "x \<in> set vals" using assms by (cases vals) auto
  then have "count_list vals x \<noteq> 0" by (simp add: count_list_0_iff)
  then have pos: "0 < top_count vals" using top_count_upper [of vals x] by simp
  have "fold max (map (count_list vals) vals) 0 = 0
        \<or> fold max (map (count_list vals) vals) 0 \<in> set (map (count_list vals) vals)"
    by (rule fold_max_attained)
  then have "top_count vals \<in> set (map (count_list vals) vals)"
    using pos unfolding top_count_def by simp
  then show ?thesis by auto
qed

lemma pd_mode_empty: "(\<forall>c\<in>set s. c = None) \<Longrightarrow> pd_mode s = []"
  by (simp add: pd_mode_def dropna_empty [symmetric])

lemma pd_mode_first:
  assumes "\<exists>c\<in>set s. c \<noteq> None"
  shows "pd_mode s \<noteq> [] \<and> Some (pd_mode s ! 0) \<in> set s
         \<and> (\<forall>v. count_list s (Some v) \<le> count_list s (Some (pd_mode s ! 0)))
         \<and> (\<forall>v. count_list s (Some v) = count_list s (Some (pd_mode s ! 0))
                \<longrightarrow> pd_mode s ! 0 \<le> v)"
proof -
  define vals where "vals = dropna s"
  define ms where "ms = filter (\<lambda>k. count_list vals k = top_count vals) (remdups vals)"
  have ne: "vals \<noteq> []" using assms by (auto simp: vals_def dropna_empty)
  define srt where "srt = sort ms"
  have pm: "pd_mode s = srt" by (simp add: pd_mode_def vals_def ms_def srt_def Let_def)
  have ss: "set srt = set ms" and so: "sorted srt" by (simp_all add: srt_def)
  have sms: "set ms = {v \<in> set vals. count_list vals v = top_count vals}"
    by (auto simp: ms_def)
  obtain w where w: "w \<in> set vals" "count_list vals w = top_count vals"
    using top_count_attained [OF ne] by blast
  then have "w \<in> set srt" by (simp add: ss sms)
  then have msne: "srt \<noteq> []" by auto
  define m where "m = pd_mode s ! 0"
  have mh: "m = hd srt" using msne by (simp add: m_def pm hd_conv_nth)
  have dec: "srt = m # tl srt" using msne mh by simp
  have "m \<in> set srt" by (subst dec) simp
  then have mm: "m \<in> set ms" by (simp add: ss)
  have least: "m \<le> v" if "v \<in> set ms" for v
  proof -
    have "sorted (m # tl srt)" using so dec by simp
    then have all: "\<forall>y\<in>set (tl srt). m \<le> y" by simp
    have "v \<in> set (m # tl srt)" using that ss dec by simp
    then have "v = m \<or> v \<in> set (tl srt)" by simp
    then show ?thesis using all by auto
  qed
  have mv: "m \<in> set vals" and mc: "count_list vals m = top_count vals" using mm sms by auto
  have 1: "pd_mode s \<noteq> []" using msne pm by simp
  have 2: "Some m \<in> set s" using mv by (simp add: vals_def set_dropna)
  have 3: "\<forall>v. count_list s (Some v) \<le> count_list s (Some m)"
    using top_count_upper [of vals] mc by (simp add: vals_def count_dropna)
  have 4: "\<forall>v. count_list s (Some v) = count_list s (Some m) \<longrightarrow> m \<le> v"
  proof (intro allI impI)
    fix v assume "count_list s (Some v) = count_list s (Some m)"
    then have c: "count_list vals v = top_count vals" using mc by (simp add: vals_def count_dropna)
    have "count_list vals m \<noteq> 0" using mv by (simp add: count_list_0_iff)
    then have "count_list vals v \<noteq> 0" using c mc by simp
    then have "v \<in> set vals" by (simp add: count_list_0_iff)
    then have "v \<in> set ms" using c by (simp add: sms)
    then show "m \<le> v" by (rule least)
  qed
  show ?thesis using 1 2 3 4 unfolding m_def by blast
qed

lemma fillna_nth:
  "i < length s \<Longrightarrow> fillna m s ! i = (if s ! i = None then Some m else s ! i)"
  by (auto simp: fillna_def split: option.splits)

lemma fillna_length: "length (fillna m s) = length s"
  by (simp add: fillna_def)

lemma fillna_all_absent: "(\<forall>c\<in>set s. c = None) \<Longrightarrow> fillna m s = replicate (length s) (Some m)"
  by (induction s) (simp_all add: fillna_def)

lemma fill_with_mode:
  assumes "\<exists>c\<in>set s. c \<noteq> None"
  shows "\<exists>m s'. fillna (pd_mode s ! 0) s = s' \<and> length s' = length s
         \<and> Some m \<in> set s
         \<and> (\<forall>v. count_list s (Some v) \<le> count_list s (Some m))
         \<and> (\<forall>v. count_list s (Some v) = count_list s (Some m) \<longrightarrow> m \<le> v)
         \<and> (\<forall>i<length s. s' ! i = (if s ! i = None then Some m else s ! i))"
proof -
  note p = pd_mode_first [OF assms]
  have 1: "fillna (pd_mode s ! 0) s = fillna (pd_mode s ! 0) s" by simp
  have 2: "length (fillna (pd_mode s ! 0) s) = length s" by (rule fillna_length)
  have 3: "Some (pd_mode s ! 0) \<in> set s" using p by (elim conjE)
  have 4: "\<forall>v. count_list s (Some v) \<le> count_list s (Some (pd_mode s ! 0))"
    using p by (elim conjE)
  have 5: "\<forall>v. count_list s (Some v) = count_list s (Some (pd_mode s ! 0))
                \<longrightarrow> pd_mode s ! 0 \<le> v"
    using p by (elim conjE)
  have 6: "\<forall>i<length s. fillna (pd_mode s ! 0) s ! i
             = (if s ! i = None then Some (pd_mode s ! 0) else s ! i)"
    by (intro allI impI) (rule fillna_nth)
  show ?thesis
    by (intro exI [of _ "pd_mode s ! 0"] exI [of _ "fillna (pd_mode s ! 0) s"] conjI)
       (rule 1, rule 2, rule 3, rule 4, rule 5, rule 6)
qed

section \<open>Claims about \<open>fill_categorical\<close>\<close>

text \<open>
  Claim C3, as stated, fails on ties. In the column \<open>[b, a, absent]\<close> both values occur
  once; the first one met is \<open>b\<close>, but the mode is returned sorted, so the gap is filled
  with \<open>a\<close>.
\<close>

theorem fill_categorical_first_encountered_counterexample:
  "spec_first_encountered_mode [Some ''b'', Some ''a'', None] = Some ''b''
   \<and> fill_categorical (Object [Some ''b'', Some ''a'', None])
       = Object [Some ''b'', Some ''a'', Some ''a'']
   \<and> fill_categorical (Object [Some ''b'', Some ''a'', None])
       \<noteq> Object [Some ''b'', Some ''a'', Some ''b'']"
  by code_simp

text \<open>
  Claim C3, amended. In a categorical column with at least one present cell every absent
  cell is replaced by a value that occurs most often among the present cells, and among
  the values that tie, by the least one in the order of the values (for text, the order
  of the character codes); present cells are unchanged. A column without any present
  cell becomes a column in which every cell is \<open>Unknown\<close>. The same holds for a
  categorical column of numbers, which turns into text only in the second case.
\<close>

theorem fill_categorical_mode:
  "((\<exists>c\<in>set s. c \<noteq> None) \<longrightarrow>
      (\<exists>m s'. fill_categorical (Object s) = Object s' \<and> length s' = length s
         \<and> Some m \<in> set s
         \<and> (\<forall>v. count_list s (Some v) \<le> count_list s (Some m))
         \<and> (\<forall>v. count_list s (Some v) = count_list s (Some m) \<longrightarrow> m \<le> v)
         \<and> (\<forall>i<length s. s' ! i = (if s ! i = None then Some m else s ! i))))
   \<and> ((\<forall>c\<in>set s. c = None) \<longrightarrow>
        fill_categorical (Object s) = Object (replicate (length s) (Some ''Unknown'')))
   \<and> ((\<exists>c\<in>set t. c \<noteq> None) \<longrightarrow>
      (\<exists>m t'. fill_categorical (Float64 t) = Float64 t' \<and> length t' = length t
         \<and> Some m \<in> set t
         \<and> (\<forall>v. count_list t (Some v) \<le> count_list t (Some m))
         \<and> (\<forall>v. count_list t (Some v) = count_list t (Some m) \<longrightarrow> m \<le> v)
         \<and> (\<forall>i<length t. t' ! i = (if t ! i = None then Some m else t ! i))))
   \<and> ((\<forall>c\<in>set t. c = None) \<longrightarrow>
        fill_categorical (Float64 t) = Object (replicate (length t) (Some ''Unknown'')))"
proof (intro conjI impI)
  assume a: "\<exists>c\<in>set s. c \<noteq> None"
  have ne: "pd_mode s \<noteq> []" using pd_mode_first [OF a] by (elim conjE)
  then have f: "fill_categorical (Object s) = Object (fillna (pd_mode s ! 0) s)"
    by (simp add: Let_def)
  from fill_with_mode [OF a]
  show "\<exists>m s'. fill_categorical (Object s) = Object s' \<and> length s' = length s
         \<and> Some m \<in> set s
         \<and> (\<forall>v. count_list s (Some v) \<le> count_list s (Some m))
         \<and> (\<forall>v. count_list s (Some v) = count_list s (Some m) \<longrightarrow> m \<le> v)
         \<and> (\<forall>i<length s. s' ! i = (if s ! i = None then Some m else s ! i))"
    unfolding f by simp
next
  assume a: "\<forall>c\<in>set s. c = None"
  then have "pd_mode s = []" by (rule pd_mode_empty)
  then show "fill_categorical (Object s) = Object (replicate (length s) (Some ''Unknown''))"
    using fillna_all_absent [OF a] by (simp add: Let_def)
next
  assume a: "\<exists>c\<in>set t. c \<noteq> None"
  have ne: "pd_mode t \<noteq> []" using pd_mode_first [OF a] by (elim conjE)
  then have f: "fill_categorical (Float64 t) = Float64 (fillna (pd_mode t ! 0) t)"
    by (simp add: Let_def)
  from fill_with_mode [OF a]
  show "\<exists>m t'. fill_categorical (Float64 t) = Float64 t' \<and> length t' = length t
         \<and> Some m \<in> set t
         \<and> (\<forall>v. count_list t (Some v) \<le> count_list t (Some m))
         \<and> (\<forall>v. count_list t (Some v) = count_list t (Some m) \<longrightarrow> m \<le> v)
         \<and> (\<forall>i<length t. t' ! i = (if t ! i = None then Some m else t ! i))"
    unfolding f by simp
next
  assume a: "\<forall>c\<in>set t. c = None"
  then have "pd_mode t = []" by (rule pd_mode_empty)
  then show "fill_categorical (Float64 t) = Object (replicate (length t) (Some ''Unknown''))"
    by (simp add: Let_def map_replicate_const)
qed

theorem fill_categorical_mode_witness:
  "fill_categorical (Object [None, None, None])
     = Object [Some ''Unknown'', Some ''Unknown'', Some ''Unknown'']
   \<and> (\<exists>m s'. fill_categorical (Object [Some ''b'', Some ''a'', None]) = Object s'
         \<and> Some m \<in> set [Some ''b'', Some ''a'', None]
         \<and> s' ! 2 = Some m \<and> s' ! 0 = Some ''b'')"
proof -
  have n: "\<forall>c\<in>set [None, None, None :: string option]. c = None" by simp
  have 1: "fill_categorical (Object [None, None, None])
     = Object [Some ''Unknown'', Some ''Unknown'', Some ''Unknown'']"
    using fill_categorical_mode [of "[None, None, None]", THEN conjunct2, THEN conjunct1,
                                 THEN mp, OF n]
    by (simp add: numeral_3_eq_3)
  have e: "\<exists>c\<in>set [Some ''b'', Some ''a'', None]. c \<noteq> None" by simp
  from fill_categorical_mode [of "[Some ''b'', Some ''a'', None]", THEN conjunct1, THEN mp, OF e]
  obtain m s' where f: "fill_categorical (Object [Some ''b'', Some ''a'', None]) = Object s'"
    and mem: "Some m \<in> set [Some ''b'', Some ''a'', None]"
    and nth: "\<forall>i<length [Some ''b'', Some ''a'', None].
                s' ! i = (if [Some ''b'', Some ''a'', None] ! i = None then Some m
                          else [Some ''b'', Some ''a'', None] ! i)"
    by (elim exE conjE)
  have 2: "s' ! 2 = Some m" using nth [rule_format, of 2] by simp
  have 3: "s' ! 0 = Some ''b''" using nth [rule_format, of 0] by simp
  have "\<exists>m s'. fill_categorical (Object [Some ''b'', Some ''a'', None]) = Object s'
         \<and> Some m \<in> set [Some ''b'', Some ''a'', None]
         \<and> s' ! 2 = Some m \<and> s' ! 0 = Some ''b''"
    by (intro exI [of _ m] exI [of _ s'] conjI) (rule f, rule mem, rule 2, rule 3)
  then show ?thesis using 1 by (intro conjI)
qed











section \<open>Claims about \<open>generate_report\<close>\<close>



end
